theory Spec2Isabelle
  imports Main "HOL-Library.Word" "HOL-Library.List_Lexorder"
begin

section \<open>The store underneath the cache\<close>

text \<open>
  \<^verbatim>\<open>boltcycle.go\<close> keeps a pseudo-LRU cache in a bolt database: one root bucket
  (\<^verbatim>\<open>bucketTimesIn\<close>) whose children are buckets named by 8-byte big-endian counters,
  each holding key/value pairs. Go's \<^verbatim>\<open>[]byte\<close> is a list of 8-bit words; bolt keeps
  the entries of a bucket in the byte order of their keys (\<^verbatim>\<open>bytes.Compare\<close>), which is
  the lexicographic order on lists. A \<^verbatim>\<open>nil\<close> key and an empty key are the same to
  every function used here (\<^verbatim>\<open>bytes.Equal\<close>, \<^verbatim>\<open>Seek\<close>, \<^verbatim>\<open>Put\<close> look at the length only), so
  both are the empty list; where \<^verbatim>\<open>nil\<close> is a result of its own (a cursor past the end,
  an absent value) it is \<open>None\<close>.
\<close>

type_synonym byte = "8 word"
type_synonym bytes = "byte list"

text \<open>The errors of the package, the errors of bolt that its calls can return, and a
  run-time panic (an index out of range).\<close>

datatype error =
    errUnableToFindRootBucket
  | errUnexpectedBucketBytes
  | errUnexpectedNonBucket
  | errNoLastBucket
  | errOrderingWrong
  | ErrBucketNameRequired
  | ErrBucketExists
  | ErrBucketNotFound
  | ErrIncompatibleValue
  | ErrKeyRequired
  | ErrKeyTooLarge
  | ErrValueTooLarge
  | Panic

text \<open>
  A ring (a child bucket of the root) is the list of its key/value pairs in key order. The
  root bucket is the list of its children in key order; a child is a nested bucket or, in
  a database that something else wrote to, a plain value. The database as one transaction
  sees it is the root bucket, or \<open>None\<close> when \<^verbatim>\<open>tx.Bucket(c.bucketTimesIn)\<close> is \<^verbatim>\<open>nil\<close>.
  A transaction that returns an error is rolled back: the caller keeps the database it
  had.
\<close>

type_synonym ring = "(bytes \<times> bytes) list"

datatype child = Nested ring | Plain bytes

type_synonym bucket = "(bytes \<times> child) list"

type_synonym db = "bucket option"

definition sorted_keys :: "(bytes \<times> 'v) list \<Rightarrow> bool" where
  "sorted_keys b = sorted_wrt (<) (map fst b)"

subsection \<open>Cursors\<close>

text \<open>\<^verbatim>\<open>Cursor.First\<close>, \<^verbatim>\<open>Cursor.Last\<close> and \<^verbatim>\<open>Cursor.Seek\<close>: the entry the cursor stops at,
  \<open>None\<close> for a \<^verbatim>\<open>nil\<close> key. \<^verbatim>\<open>Seek\<close> stops at the first entry whose key is not below the
  one sought.\<close>

definition cursor_First :: "(bytes \<times> 'v) list \<Rightarrow> (bytes \<times> 'v) option" where
  "cursor_First b = (case b of [] \<Rightarrow> None | e # _ \<Rightarrow> Some e)"

definition cursor_Last :: "(bytes \<times> 'v) list \<Rightarrow> (bytes \<times> 'v) option" where
  "cursor_Last b = (if b = [] then None else Some (last b))"

definition cursor_Seek :: "(bytes \<times> 'v) list \<Rightarrow> bytes \<Rightarrow> (bytes \<times> 'v) option" where
  "cursor_Seek b k = find (\<lambda>e. k \<le> fst e) b"

text \<open>\<^verbatim>\<open>bytes.Equal(k, key)\<close> where \<^verbatim>\<open>k\<close> came from a cursor: a \<^verbatim>\<open>nil\<close> slice equals an
  empty one.\<close>

definition bytes_Equal :: "bytes option \<Rightarrow> bytes \<Rightarrow> bool" where
  "bytes_Equal k key = (case k of None \<Rightarrow> key = [] | Some k' \<Rightarrow> k' = key)"

subsection \<open>Insertion and removal in key order\<close>

fun put_entry :: "bytes \<Rightarrow> 'v \<Rightarrow> (bytes \<times> 'v) list \<Rightarrow> (bytes \<times> 'v) list" where
  "put_entry k v [] = [(k, v)]"
| "put_entry k v (e # es) =
     (if k < fst e then (k, v) # e # es
      else if k = fst e then (k, v) # es
      else e # put_entry k v es)"

definition del_entry :: "bytes \<Rightarrow> (bytes \<times> 'v) list \<Rightarrow> (bytes \<times> 'v) list" where
  "del_entry k b = filter (\<lambda>e. fst e \<noteq> k) b"

subsection \<open>Buckets of the root\<close>

text \<open>\<^verbatim>\<open>Bucket.Bucket(name)\<close> is \<^verbatim>\<open>nil\<close> when the name is absent or names a plain value.
  \<^verbatim>\<open>CreateBucket\<close> and \<^verbatim>\<open>DeleteBucket\<close> with the errors bolt documents for them.\<close>

definition Bucket :: "bucket \<Rightarrow> bytes \<Rightarrow> ring option" where
  "Bucket b name = (case map_of b name of Some (Nested r) \<Rightarrow> Some r | _ \<Rightarrow> None)"

definition CreateBucket :: "bucket \<Rightarrow> bytes \<Rightarrow> error + bucket" where
  "CreateBucket b name =
     (if name = [] then Inl ErrBucketNameRequired
      else case map_of b name of
             Some (Nested _) \<Rightarrow> Inl ErrBucketExists
           | Some (Plain _) \<Rightarrow> Inl ErrIncompatibleValue
           | None \<Rightarrow> Inr (put_entry name (Nested []) b))"

definition DeleteBucket :: "bucket \<Rightarrow> bytes \<Rightarrow> error + bucket" where
  "DeleteBucket b name =
     (case map_of b name of
        None \<Rightarrow> Inl ErrBucketNotFound
      | Some (Plain _) \<Rightarrow> Inl ErrIncompatibleValue
      | Some (Nested _) \<Rightarrow> Inr (del_entry name b))"

subsection \<open>Big-endian counters\<close>

text \<open>\<^verbatim>\<open>binary.BigEndian.Uint64\<close> reads the first eight bytes of its argument, the most
  significant first, and panics on a shorter one (the callers below check the length
  where the model needs the panic); \<^verbatim>\<open>PutUint64\<close> writes eight bytes, the last one
  \<^verbatim>\<open>byte(v)\<close>, the one before \<^verbatim>\<open>byte(v >> 8)\<close>, and so on. Arithmetic on the counter is
  that of \<^verbatim>\<open>uint64\<close>: it wraps.\<close>

definition Uint64 :: "bytes \<Rightarrow> 64 word" where
  "Uint64 b = foldl (\<lambda>acc x. acc * 256 + ucast x) 0 (take 8 b)"

primrec be_encode :: "nat \<Rightarrow> 64 word \<Rightarrow> bytes" where
  "be_encode 0 v = []"
| "be_encode (Suc k) v = be_encode k (drop_bit 8 v) @ [ucast v]"

definition PutUint64 :: "64 word \<Rightarrow> bytes" where
  "PutUint64 v = be_encode 8 v"

text \<open>The number a byte string denotes when read as a big-endian numeral, for the
  proofs.\<close>

definition be_decode :: "bytes \<Rightarrow> nat" where
  "be_decode bs = foldl (\<lambda>acc b. acc * 256 + unat b) 0 bs"

section \<open>Initialisation and the integrity check of the ring names\<close>

text \<open>\<^verbatim>\<open>init\<close>: unless the database is read-only, make sure the root bucket exists and,
  when it has no child, create the bucket named by eight zero bytes.\<close>

definition init :: "bool \<Rightarrow> db \<Rightarrow> error + db" where
  "init readOnly d =
     (if readOnly then Inr d
      else let bucket = (case d of None \<Rightarrow> [] | Some b \<Rightarrow> b) in
        case cursor_First bucket of
          None \<Rightarrow> (case CreateBucket bucket (replicate 8 0) of
                      Inl e \<Rightarrow> Inl e
                    | Inr b \<Rightarrow> Inr (Some b))
        | Some _ \<Rightarrow> Inr (Some bucket))"

text \<open>\<^verbatim>\<open>VerifyBuckets\<close>: every child of the root is a bucket with a name of 8 bytes.\<close>

fun verify_each :: "bucket \<Rightarrow> error + unit" where
  "verify_each [] = Inr ()"
| "verify_each ((k, c) # rest) =
     (case c of
        Plain _ \<Rightarrow> Inl errUnexpectedNonBucket
      | Nested _ \<Rightarrow> if length k \<noteq> 8 then Inl errUnexpectedBucketBytes else verify_each rest)"

definition VerifyBuckets :: "db \<Rightarrow> error + unit" where
  "VerifyBuckets d =
     (case d of None \<Rightarrow> Inl errUnableToFindRootBucket | Some bucket \<Rightarrow> verify_each bucket)"

section \<open>Rotation\<close>

text \<open>
  \<^verbatim>\<open>nextKey\<close> decodes the name it is given and encodes the successor. The name comes from
  \<^verbatim>\<open>cursor.Last()\<close>: it is \<^verbatim>\<open>nil\<close> when the bucket is empty, and then, as for any name
  shorter than 8 bytes, \<^verbatim>\<open>Uint64\<close> panics.
\<close>

definition nextKey :: "bytes option \<Rightarrow> error + bytes" where
  "nextKey lastKey =
     (case lastKey of
        None \<Rightarrow> Inl Panic
      | Some l \<Rightarrow> if length l < 8 then Inl Panic else Inr (PutUint64 (Uint64 l + 1)))"

text \<open>
  The trimming loop of \<^verbatim>\<open>CycleNodes\<close>. Its cursor walks the children of the root from the
  first one, in the order they had when the transaction began (the cursor reads the pages
  of the transaction's snapshot, \<^verbatim>\<open>DeleteBucket\<close> changes the transaction's own copy); the
  count was taken before the loop and is decremented at each deletion.
\<close>

fun trim :: "bytes list \<Rightarrow> int \<Rightarrow> int \<Rightarrow> bucket \<Rightarrow> error + bucket" where
  "trim [] countBuckets minNumOldBuckets b = Inr b"
| "trim (k # ks) countBuckets minNumOldBuckets b =
     (if countBuckets > minNumOldBuckets
      then (case DeleteBucket b k of
              Inl e \<Rightarrow> Inl e
            | Inr b' \<Rightarrow> trim ks (countBuckets - 1) minNumOldBuckets b')
      else Inr b)"

definition CycleNodes :: "int \<Rightarrow> db \<Rightarrow> error + db" where
  "CycleNodes minNumOldBuckets d =
     (case d of
        None \<Rightarrow> Inl errUnableToFindRootBucket
      | Some bucket \<Rightarrow>
          let countBuckets = int (length bucket) in
          case trim (map fst bucket) countBuckets minNumOldBuckets bucket of
            Inl e \<Rightarrow> Inl e
          | Inr b1 \<Rightarrow>
              (case nextKey (map_option fst (cursor_Last b1)) of
                 Inl e \<Rightarrow> Inl e
               | Inr nextBucketName \<Rightarrow>
                   (case CreateBucket b1 nextBucketName of
                      Inl e \<Rightarrow> Inl e
                    | Inr b2 \<Rightarrow> Inr (Some b2))))"

text \<open>\<open>n\<close> calls of \<^verbatim>\<open>CycleNodes\<close> in a row, stopping at the first error.\<close>

fun rotate_n :: "nat \<Rightarrow> int \<Rightarrow> db \<Rightarrow> error + db" where
  "rotate_n 0 m d = Inr d"
| "rotate_n (Suc n) m d =
     (case CycleNodes m d of Inl e \<Rightarrow> Inl e | Inr d' \<Rightarrow> rotate_n n m d')"

text \<open>The cache right after \<^verbatim>\<open>New\<close> on an empty database: one ring, named 0.\<close>

definition fresh :: db where
  "fresh = Some [(replicate 8 0, Nested [])]"

definition ring_count :: "db \<Rightarrow> int" where
  "ring_count d = (case d of None \<Rightarrow> 0 | Some b \<Rightarrow> int (length b))"

section \<open>Keys and values of a ring\<close>

text \<open>
  \<^verbatim>\<open>Bucket.Put\<close> inserts or replaces, and refuses an empty key, a key above
  \<^verbatim>\<open>MaxKeySize\<close> and a value above \<^verbatim>\<open>MaxValueSize\<close> (the constants of bolt).
  \<^verbatim>\<open>Cursor.Delete\<close> removes the entry the cursor is at; at a cursor that \<^verbatim>\<open>Seek\<close> left
  past the last entry it removes nothing and returns no error. A ring that was changed is
  put back under its name in the root (in Go the bucket is changed in place).
\<close>

definition MaxKeySize :: int where
  "MaxKeySize = 32768"

definition MaxValueSize :: int where
  "MaxValueSize = 2147483646"

definition bucket_Put :: "ring \<Rightarrow> bytes \<Rightarrow> bytes \<Rightarrow> error + ring" where
  "bucket_Put r k v =
     (if length k = 0 then Inl ErrKeyRequired
      else if int (length k) > MaxKeySize then Inl ErrKeyTooLarge
      else if int (length v) > MaxValueSize then Inl ErrValueTooLarge
      else Inr (put_entry k v r))"

definition cursor_Delete :: "ring \<Rightarrow> (bytes \<times> bytes) option \<Rightarrow> ring" where
  "cursor_Delete r pos = (case pos of None \<Rightarrow> r | Some e \<Rightarrow> del_entry (fst e) r)"

definition set_ring :: "bucket \<Rightarrow> bytes \<Rightarrow> ring \<Rightarrow> bucket" where
  "set_ring b name r = map (\<lambda>e. if fst e = name then (fst e, Nested r) else e) b"

section \<open>Reading\<close>

text \<open>
  \<^verbatim>\<open>readToLocation\<close>: the fields \<^verbatim>\<open>bucket\<close>, \<^verbatim>\<open>key\<close>, \<^verbatim>\<open>value\<close> and \<^verbatim>\<open>needsCopy\<close> (the first
  three renamed: \<open>value\<close> is a keyword here). The value is \<open>None\<close> for \<^verbatim>\<open>nil\<close>, which is what
  \<^verbatim>\<open>Read\<close> returns for a key it did not find; a value that was found is a fresh slice,
  never \<^verbatim>\<open>nil\<close>.
\<close>

record readToLocation =
  loc_bucket :: "64 word"
  loc_key :: bytes
  loc_value :: "bytes option"
  needsCopy :: bool

definition zero_location :: readToLocation where
  "zero_location = \<lparr>loc_bucket = 0, loc_key = [], loc_value = None, needsCopy = False\<rparr>"

text \<open>
  The inner loop of \<^verbatim>\<open>indexToLocation\<close>: every index still in \<^verbatim>\<open>indexesToFetch\<close> is looked up
  in one ring; an index that is found is written to \<^verbatim>\<open>res\<close> and removed from the map. Go
  ranges over the map in an order of its own choosing; each index is handled on its own,
  and the model takes them in the order of the list.
\<close>

fun search_ring ::
  "ring \<Rightarrow> 64 word \<Rightarrow> bool \<Rightarrow> (nat \<times> bytes) list \<Rightarrow> readToLocation list \<Rightarrow>
   (nat \<times> bytes) list \<times> readToLocation list" where
  "search_ring timeBucket bucketAsUint nc [] res = ([], res)"
| "search_ring timeBucket bucketAsUint nc ((index, searchBytes) # rest) res =
     (case cursor_Seek timeBucket searchBytes of
        None \<Rightarrow>
          (case search_ring timeBucket bucketAsUint nc rest res of
             (left, res') \<Rightarrow> ((index, searchBytes) # left, res'))
      | Some (key, val) \<Rightarrow>
          if key = searchBytes
          then search_ring timeBucket bucketAsUint nc rest
                 (res[index := \<lparr>loc_bucket = bucketAsUint, loc_key = searchBytes,
                                 loc_value = Some val, needsCopy = nc\<rparr>])
          else (case search_ring timeBucket bucketAsUint nc rest res of
                  (left, res') \<Rightarrow> ((index, searchBytes) # left, res')))"

text \<open>The outer loop, over the children of the root from the last one backwards; it
  stops when nothing is left to fetch. \<^verbatim>\<open>needsCopy\<close> is false for the first child visited
  and true from then on.\<close>

fun search_rings ::
  "bucket \<Rightarrow> bool \<Rightarrow> (nat \<times> bytes) list \<Rightarrow> readToLocation list \<Rightarrow>
   error + readToLocation list" where
  "search_rings [] nc indexesToFetch res = Inr res"
| "search_rings ((lastKey, c) # older) nc indexesToFetch res =
     (if indexesToFetch = [] then Inr res
      else case c of
             Plain _ \<Rightarrow> Inl errUnexpectedNonBucket
           | Nested timeBucket \<Rightarrow>
               if length lastKey < 8 then Inl Panic
               else (case search_ring timeBucket (Uint64 lastKey) nc indexesToFetch res of
                       (left, res') \<Rightarrow> search_rings older True left res'))"

definition indexToLocation :: "db \<Rightarrow> bytes list \<Rightarrow> error + readToLocation list" where
  "indexToLocation d toread =
     (case d of
        None \<Rightarrow> Inl errUnableToFindRootBucket
      | Some bucket \<Rightarrow>
          search_rings (rev bucket) False (zip [0..<length toread] toread)
            (replicate (length toread) zero_location))"

text \<open>\<^verbatim>\<open>Read\<close> returns the values and, unless the database is read-only, sends every
  location that needs a copy to the channel \<^verbatim>\<open>readMovements\<close>, in the order of the batch:
  the second component is what it sends.\<close>

definition Read ::
  "bool \<Rightarrow> db \<Rightarrow> bytes list \<Rightarrow> error + (bytes option list \<times> readToLocation list)" where
  "Read readOnly d toread =
     (case indexToLocation d toread of
        Inl e \<Rightarrow> Inl e
      | Inr readLocations \<Rightarrow>
          Inr (map loc_value readLocations,
               if readOnly then [] else filter needsCopy readLocations))"

section \<open>Writing\<close>

record KvPair =
  Key :: bytes
  Value :: bytes

fun put_all :: "ring \<Rightarrow> KvPair list \<Rightarrow> error + ring" where
  "put_all lastBucket [] = Inr lastBucket"
| "put_all lastBucket (p # ps) =
     (case bucket_Put lastBucket (Key p) (Value p) of
        Inl e \<Rightarrow> Inl e
      | Inr r \<Rightarrow> put_all r ps)"

definition Write :: "db \<Rightarrow> KvPair list \<Rightarrow> error + db" where
  "Write d towrite =
     (case d of
        None \<Rightarrow> Inl errUnableToFindRootBucket
      | Some bucket \<Rightarrow>
          (case cursor_Last bucket of
             None \<Rightarrow> Inl errNoLastBucket
           | Some e \<Rightarrow>
               (case Bucket bucket (fst e) of
                  None \<Rightarrow> Inl errNoLastBucket
                | Some lastBucket \<Rightarrow>
                    (case put_all lastBucket towrite of
                       Inl err \<Rightarrow> Inl err
                     | Inr r \<Rightarrow> Inr (Some (set_ring bucket (fst e) r))))))"

section \<open>Deleting\<close>

text \<open>\<^verbatim>\<open>deleteKeys\<close> on the cursor of one ring: the ring and the flags after the loop. The
  comparison is \<^verbatim>\<open>bytes.Equal\<close> on what \<^verbatim>\<open>Seek\<close> returned, with no test for \<^verbatim>\<open>nil\<close>.\<close>

fun deleteKeys :: "bytes list \<Rightarrow> nat \<Rightarrow> ring \<Rightarrow> bool list \<Rightarrow> ring \<times> bool list" where
  "deleteKeys [] index r ret = (r, ret)"
| "deleteKeys (key # keys) index r ret =
     (let pos = cursor_Seek r key in
      if bytes_Equal (map_option fst pos) key
      then deleteKeys keys (Suc index) (cursor_Delete r pos) (ret[index := True])
      else deleteKeys keys (Suc index) r ret)"

text \<open>\<^verbatim>\<open>bucket.ForEach\<close> over the children of the root. \<^verbatim>\<open>Delete\<close> returns the flags also
  when the transaction fails.\<close>

fun delete_each :: "bucket \<Rightarrow> bytes list \<Rightarrow> bool list \<Rightarrow> bool list \<times> (error + bucket)" where
  "delete_each [] keys ret = (ret, Inr [])"
| "delete_each ((k, c) # rest) keys ret =
     (case c of
        Plain _ \<Rightarrow> (ret, Inl errUnexpectedNonBucket)
      | Nested innerBucket \<Rightarrow>
          (case deleteKeys keys 0 innerBucket ret of
             (r', ret') \<Rightarrow>
               (case delete_each rest keys ret' of
                  (ret'', Inl e) \<Rightarrow> (ret'', Inl e)
                | (ret'', Inr rest') \<Rightarrow> (ret'', Inr ((k, Nested r') # rest')))))"

definition Delete :: "db \<Rightarrow> bytes list \<Rightarrow> bool list \<times> (error + db)" where
  "Delete d keys =
     (let ret = replicate (length keys) False in
      case d of
        None \<Rightarrow> (ret, Inl errUnableToFindRootBucket)
      | Some bucket \<Rightarrow>
          (case delete_each bucket keys ret of
             (ret', Inl e) \<Rightarrow> (ret', Inl e)
           | (ret', Inr b') \<Rightarrow> (ret', Inr (Some b'))))"

section \<open>Promotion\<close>

text \<open>
  \<^verbatim>\<open>moveRecentReads\<close> first groups the batch by source bucket in the Go map
  \<^verbatim>\<open>bucketIDToReadLocations\<close>: a function from bucket ids to the locations appended under
  them, in batch order, empty for an id that does not occur. The \<^verbatim>\<open>range\<close> over that map
  visits its keys in an order the Go runtime chooses; that order is a parameter of the
  model, a list of bucket ids, and \<open>range_order\<close> says that it lists every key of the map
  once.
\<close>

definition group_by_bucket :: "readToLocation list \<Rightarrow> 64 word \<Rightarrow> readToLocation list" where
  "group_by_bucket readLocations =
     foldl (\<lambda>m r. m(loc_bucket r := m (loc_bucket r) @ [r])) (\<lambda>_. []) readLocations"

definition range_order :: "readToLocation list \<Rightarrow> 64 word list \<Rightarrow> bool" where
  "range_order readLocations order =
     (distinct order \<and> set order = loc_bucket ` set readLocations)"

text \<open>
  \<^verbatim>\<open>cleanupBucketsFunc\<close>: delete the key from the old bucket when the cursor finds it, then
  put the pair into the last bucket. The two buckets are named by their keys in the root,
  so that the put sees the deletion when both are the same bucket; a name with no bucket
  behind it would be a \<^verbatim>\<open>nil\<close> receiver, a panic.
\<close>

definition cleanupBucketsFunc ::
  "bucket \<Rightarrow> bytes \<Rightarrow> bytes \<Rightarrow> readToLocation \<Rightarrow> error + (bool \<times> bucket)" where
  "cleanupBucketsFunc b oldName lastName readLoc =
     (case Bucket b oldName of
        None \<Rightarrow> Inl Panic
      | Some oldBucket \<Rightarrow>
          let pos = cursor_Seek oldBucket (loc_key readLoc);
              wasDeleted = bytes_Equal (map_option fst pos) (loc_key readLoc);
              b1 = (if wasDeleted then set_ring b oldName (cursor_Delete oldBucket pos) else b)
          in (case Bucket b1 lastName of
                None \<Rightarrow> Inl Panic
              | Some lastBucket \<Rightarrow>
                  (case bucket_Put lastBucket (loc_key readLoc)
                          (case loc_value readLoc of None \<Rightarrow> [] | Some v \<Rightarrow> v) of
                     Inl e \<Rightarrow> Inl e
                   | Inr r \<Rightarrow> Inr (wasDeleted, set_ring b1 lastName r))))"

text \<open>The loop over the locations of one group, and the loop over the groups, with the
  two counters \<^verbatim>\<open>recopyCount\<close> and \<^verbatim>\<open>deletedCount\<close>.\<close>

fun move_items ::
  "bucket \<Rightarrow> bytes \<Rightarrow> bytes \<Rightarrow> readToLocation list \<Rightarrow> nat \<times> nat \<Rightarrow>
   error + (bucket \<times> nat \<times> nat)" where
  "move_items b oldName lastName [] counts = Inr (b, counts)"
| "move_items b oldName lastName (rs # rest) counts =
     (case cleanupBucketsFunc b oldName lastName rs of
        Inl e \<Rightarrow> Inl e
      | Inr (wasDeleted, b') \<Rightarrow>
          move_items b' oldName lastName rest
            (fst counts + 1, if wasDeleted then snd counts + 1 else snd counts))"

fun move_groups ::
  "bucket \<Rightarrow> bytes \<Rightarrow> (64 word \<Rightarrow> readToLocation list) \<Rightarrow> 64 word list \<Rightarrow> nat \<times> nat \<Rightarrow>
   error + (bucket \<times> nat \<times> nat)" where
  "move_groups b lastName bucketIDToReadLocations [] counts = Inr (b, counts)"
| "move_groups b lastName bucketIDToReadLocations (bucketID # order) counts =
     (case Bucket b (PutUint64 bucketID) of
        None \<Rightarrow> move_groups b lastName bucketIDToReadLocations order counts
      | Some _ \<Rightarrow>
          (case move_items b (PutUint64 bucketID) lastName
                  (bucketIDToReadLocations bucketID) counts of
             Inl e \<Rightarrow> Inl e
           | Inr (b', counts') \<Rightarrow>
               move_groups b' lastName bucketIDToReadLocations order counts'))"

text \<open>\<^verbatim>\<open>moveRecentReads\<close>, with the order of the \<^verbatim>\<open>range\<close> as its first argument. It returns
  the database and the two counters it adds to the statistics.\<close>

definition moveRecentReads ::
  "64 word list \<Rightarrow> db \<Rightarrow> readToLocation list \<Rightarrow> error + (db \<times> nat \<times> nat)" where
  "moveRecentReads order d readLocations =
     (case d of
        None \<Rightarrow> Inl errUnableToFindRootBucket
      | Some bucket \<Rightarrow>
          (case cursor_Last bucket of
             None \<Rightarrow> Inl errNoLastBucket
           | Some e \<Rightarrow>
               (case Bucket bucket (fst e) of
                  None \<Rightarrow> Inl errNoLastBucket
                | Some _ \<Rightarrow>
                    (case move_groups bucket (fst e) (group_by_bucket readLocations) order
                            (0, 0) of
                       Inl err \<Rightarrow> Inl err
                     | Inr (b', counts) \<Rightarrow> Inr (Some b', counts)))))"

section \<open>The promoter's queue\<close>

text \<open>
  The channel \<^verbatim>\<open>readMovements\<close> as the promoter finds it: the items buffered, oldest first,
  and whether it was closed. A receive takes the oldest item; on an empty channel it
  reports \<^verbatim>\<open>!ok\<close> when the channel is closed and otherwise blocks (the plain receive) or
  takes the \<^verbatim>\<open>default\<close> branch (the receive inside \<^verbatim>\<open>select\<close>).
\<close>

record 'a chan =
  buf :: "'a list"
  closed :: bool

datatype 'a drained = Blocks | Panics | Returns "'a list option" "'a chan"

fun drain_loop :: "int \<Rightarrow> 'a list \<Rightarrow> 'a list \<Rightarrow> 'a list \<times> 'a list" where
  "drain_loop maxBatchSize allMovements [] = (allMovements, [])"
| "drain_loop maxBatchSize allMovements (rm # q) =
     (if int (length allMovements) < maxBatchSize
      then drain_loop maxBatchSize (allMovements @ [rm]) q
      else (allMovements, rm # q))"

text \<open>
  \<^verbatim>\<open>make([]readToLocation, 0, maxBatchSize)\<close> panics when the capacity is negative or
  more than the runtime can allocate. That limit depends on the platform; it is the
  parameter \<open>maxCap\<close>. After it, \<^verbatim>\<open>drainAllMovements\<close> blocks for a first item (\<^verbatim>\<open>nil\<close> when
  the channel is closed and empty) and then takes what the channel holds while the batch
  is shorter than \<^verbatim>\<open>maxBatchSize\<close>. \<^verbatim>\<open>readMovementLoop\<close> hands every batch that is not \<^verbatim>\<open>nil\<close>
  to \<^verbatim>\<open>moveRecentReads\<close> and returns on \<^verbatim>\<open>nil\<close>.
\<close>

definition drainAllMovements :: "int \<Rightarrow> 'a chan \<Rightarrow> int \<Rightarrow> 'a drained" where
  "drainAllMovements maxCap readMovements maxBatchSize =
     (if maxBatchSize < 0 \<or> maxCap < maxBatchSize then Panics
      else case buf readMovements of
             [] \<Rightarrow> if closed readMovements then Returns None readMovements else Blocks
           | rm # q \<Rightarrow>
               (case drain_loop maxBatchSize [rm] q of
                  (allMovements, q') \<Rightarrow>
                    Returns (Some allMovements) (readMovements\<lparr>buf := q'\<rparr>)))"

section \<open>Well-formed stores\<close>

text \<open>
  What bolt guarantees of every bucket it hands out: the children of the root are in
  strictly increasing key order, and so are the pairs of every ring; no ring holds the
  empty key (\<^verbatim>\<open>Put\<close> refuses it). Whether the children of the root are buckets, and how
  long their names are, is not part of it: that is what \<^verbatim>\<open>VerifyBuckets\<close> checks.
\<close>

definition well_formed :: "bucket \<Rightarrow> bool" where
  "well_formed b =
     (sorted_keys b \<and>
      list_all (\<lambda>e. case snd e of
                      Nested r \<Rightarrow> sorted_keys r \<and> list_all (\<lambda>p. fst p \<noteq> []) r
                    | Plain _ \<Rightarrow> True) b)"

text \<open>For the proofs: the location that the search of one key ends with, over the
  children from the newest to the oldest; and the store with the given keys removed from
  every ring.\<close>

fun locate :: "bucket \<Rightarrow> bool \<Rightarrow> bytes \<Rightarrow> readToLocation option" where
  "locate [] nc k = None"
| "locate ((n, c) # older) nc k =
     (case c of
        Plain _ \<Rightarrow> locate older True k
      | Nested r \<Rightarrow>
          (case map_of r k of
             None \<Rightarrow> locate older True k
           | Some v \<Rightarrow> Some \<lparr>loc_bucket = Uint64 n, loc_key = k, loc_value = Some v, needsCopy = nc\<rparr>))"

definition purge :: "bytes list \<Rightarrow> bucket \<Rightarrow> bucket" where
  "purge keys b =
     map (\<lambda>e. (fst e, case snd e of
                         Nested r \<Rightarrow> Nested (filter (\<lambda>p. fst p \<notin> set keys) r)
                       | Plain v \<Rightarrow> Plain v)) b"

text \<open>A store with two rings, for the examples: ring 0 holds the keys \<open>k\<close> (107) and \<open>l\<close>
  (108), ring 1 holds \<open>l\<close>.\<close>

definition store2 :: bucket where
  "store2 = [([0,0,0,0,0,0,0,0], Nested [([107], [1]), ([108], [2])]),
             ([0,0,0,0,0,0,0,1], Nested [([108], [3])])]"

section \<open>Properties\<close>

subsection \<open>Buckets kept in key order\<close>

lemma sorted_keys_Cons:
  "sorted_keys (e # es) = ((\<forall>x\<in>set es. fst e < fst x) \<and> sorted_keys es)"
  by (auto simp: sorted_keys_def)

lemma sorted_keys_distinct: "sorted_keys b \<Longrightarrow> distinct (map fst b)"
  unfolding sorted_keys_def by (simp add: strict_sorted_iff)

lemma sorted_keys_drop: "sorted_keys b \<Longrightarrow> sorted_keys (drop n b)"
  unfolding sorted_keys_def by (simp add: drop_map [symmetric] sorted_wrt_drop)

lemma del_entry_hd:
  "sorted_keys (e # es) \<Longrightarrow> del_entry (fst e) (e # es) = es"
  by (auto simp: del_entry_def sorted_keys_Cons filter_id_conv)

lemma map_of_hd: "map_of (e # es) (fst e) = Some (snd e)"
  by (cases e) simp

lemma trim_result:
  "sorted_keys b \<Longrightarrow> trim (map fst b) c m b = Inr b' \<Longrightarrow>
   b' = drop (min (nat (c - m)) (length b)) b"
proof (induction b arbitrary: c)
  case Nil
  then show ?case by simp
next
  case (Cons e es)
  show ?case
  proof (cases "c > m")
    case False
    with Cons.prems show ?thesis by simp
  next
    case True
    with Cons.prems obtain b1 where d: "DeleteBucket (e # es) (fst e) = Inr b1"
      and t: "trim (map fst es) (c - 1) m b1 = Inr b'"
      by (auto split: sum.splits)
    from d have "b1 = del_entry (fst e) (e # es)"
      by (auto simp: DeleteBucket_def map_of_hd split: option.splits child.splits)
    with Cons.prems(1) have b1: "b1 = es" by (simp add: del_entry_hd)
    from Cons.prems(1) have "sorted_keys es" by (simp add: sorted_keys_Cons)
    with Cons.IH t b1 have "b' = drop (min (nat (c - 1 - m)) (length es)) es"
      by simp
    moreover from True have "min (nat (c - m)) (length (e # es)) = Suc (min (nat (c - 1 - m)) (length es))"
      by (simp add: nat_diff_distrib' min_def) linarith
    ultimately show ?thesis by simp
  qed
qed

lemma verify_each_iff:
  "verify_each b = Inr () \<longleftrightarrow> (\<forall>e\<in>set b. (\<exists>r. snd e = Nested r) \<and> length (fst e) = 8)"
  by (induction b rule: verify_each.induct) (auto split: child.splits)

lemma trim_succeeds:
  "sorted_keys b \<Longrightarrow> \<forall>e\<in>set b. \<exists>r. snd e = Nested r \<Longrightarrow>
   trim (map fst b) c m b = Inr (drop (min (nat (c - m)) (length b)) b)"
proof (induction b arbitrary: c)
  case Nil
  then show ?case by simp
next
  case (Cons e es)
  show ?case
  proof (cases "c > m")
    case False
    then show ?thesis by simp
  next
    case True
    from Cons.prems(2) obtain r where "snd e = Nested r" by auto
    with Cons.prems(1) have d: "DeleteBucket (e # es) (fst e) = Inr es"
      by (simp add: DeleteBucket_def map_of_hd del_entry_hd)
    from Cons.prems have "sorted_keys es" "\<forall>e\<in>set es. \<exists>r. snd e = Nested r"
      by (simp_all add: sorted_keys_Cons)
    from Cons.IH [OF this] have
      "trim (map fst es) (c - 1) m es = Inr (drop (min (nat (c - 1 - m)) (length es)) es)" .
    moreover from True have "min (nat (c - m)) (length (e # es)) = Suc (min (nat (c - 1 - m)) (length es))"
      by (simp add: nat_diff_distrib' min_def) linarith
    ultimately show ?thesis using True d by simp
  qed
qed

lemma put_entry_append:
  "\<forall>e\<in>set b. fst e < k \<Longrightarrow> put_entry k v b = b @ [(k, v)]"
  by (induction b) auto

lemma set_put_entry:
  "fst ` set (put_entry k v b) = insert k (fst ` set b)"
  by (induction b) auto

lemma sorted_keys_put_entry:
  "sorted_keys b \<Longrightarrow> sorted_keys (put_entry k v b)"
proof (induction b)
  case Nil
  then show ?case by (simp add: sorted_keys_def)
next
  case (Cons e es)
  then have es: "sorted_keys es" and lt: "\<forall>x\<in>set es. fst e < fst x"
    by (simp_all add: sorted_keys_Cons)
  show ?case
  proof (cases "k < fst e")
    case True
    with Cons.prems lt show ?thesis by (auto simp: sorted_keys_Cons)
  next
    case False
    show ?thesis
    proof (cases "k = fst e")
      case True
      with es lt show ?thesis by (simp add: sorted_keys_Cons)
    next
      case ne: False
      with False have "fst e < k" by simp
      moreover have "fst ` set (put_entry k v es) = insert k (fst ` set es)"
        by (rule set_put_entry)
      ultimately have "\<forall>x\<in>set (put_entry k v es). fst e < fst x"
        using lt by (metis (no_types, lifting) image_iff insert_iff)
      with Cons.IH [OF es] False ne show ?thesis by (simp add: sorted_keys_Cons)
    qed
  qed
qed

lemma sorted_keys_last_greatest:
  "sorted_keys b \<Longrightarrow> e \<in> set b \<Longrightarrow> fst e \<le> fst (last b)"
proof (induction b)
  case Nil
  then show ?case by simp
next
  case (Cons x xs)
  then show ?case by (cases "xs = []") (auto simp: sorted_keys_Cons intro: less_imp_le order_less_le_trans)
qed

subsection \<open>Names as big-endian numerals\<close>

lemma be_decode_snoc: "be_decode (bs @ [b]) = be_decode bs * 256 + unat b"
  by (simp add: be_decode_def)

lemma be_decode_Nil: "be_decode [] = 0"
  by (simp add: be_decode_def)

lemma be_decode_bound: "be_decode bs < 256 ^ length bs"
proof (induction bs rule: rev_induct)
  case Nil
  then show ?case by (simp add: be_decode_Nil)
next
  case (snoc b bs)
  have "unat b < 256" using unsigned_less [of b, where ?'a = nat] by simp
  with snoc show ?case by (simp add: be_decode_snoc)
qed

lemma be_decode_append:
  "be_decode (xs @ ys) = be_decode xs * 256 ^ length ys + be_decode ys"
proof (induction ys rule: rev_induct)
  case Nil
  then show ?case by (simp add: be_decode_Nil)
next
  case (snoc y ys)
  have "be_decode (xs @ ys @ [y]) = be_decode ((xs @ ys) @ [y])" by simp
  also have "\<dots> = be_decode (xs @ ys) * 256 + unat y" by (rule be_decode_snoc)
  finally show ?case using snoc by (simp add: be_decode_snoc algebra_simps)
qed

lemma be_decode_Cons: "be_decode (x # xs) = unat x * 256 ^ length xs + be_decode xs"
  using be_decode_append [of "[x]" xs] by (simp add: be_decode_def)

lemma be_decode_less_lex:
  "length xs = length ys \<Longrightarrow> be_decode xs < be_decode ys \<Longrightarrow> xs < ys"
proof (induction xs ys rule: list_induct2)
  case Nil
  then show ?case by simp
next
  case (Cons x xs y ys)
  have bx: "be_decode xs < 256 ^ length xs" by (rule be_decode_bound)
  have by': "be_decode ys < 256 ^ length xs" using be_decode_bound [of ys] Cons.hyps by simp
  show ?case
  proof (cases "x = y")
    case True
    with Cons show ?thesis by (simp add: be_decode_Cons)
  next
    case False
    have "unat x < unat y"
    proof (rule ccontr)
      assume "\<not> unat x < unat y"
      with False have "unat y < unat x" by (metis linorder_neqE_nat word_unat_eq_iff)
      then have "unat y + 1 \<le> unat x" by simp
      then have "(unat y + 1) * 256 ^ length xs \<le> unat x * 256 ^ length xs"
        by (rule mult_le_mono1)
      with by' have "be_decode (y # ys) < unat x * 256 ^ length xs"
        using Cons.hyps by (simp add: be_decode_Cons)
      then have "be_decode (y # ys) < be_decode (x # xs)" by (simp add: be_decode_Cons)
      with Cons.prems show False by simp
    qed
    then have "x < y" by (simp add: word_less_nat_alt)
    then show ?thesis by simp
  qed
qed

lemma length_be_encode: "length (be_encode k v) = k"
  by (induction k arbitrary: v) simp_all

lemma be_decode_be_encode: "be_decode (be_encode k v) = unat v mod 256 ^ k"
proof (induction k arbitrary: v)
  case 0
  then show ?case by (simp add: be_decode_Nil)
next
  case (Suc k)
  have "unat (ucast v :: byte) = unat v mod 256"
    by (simp add: unsigned_ucast_eq take_bit_eq_mod)
  moreover have "unat (drop_bit 8 v) = unat v div 256"
    unfolding unat_drop_bit_eq by (simp add: drop_bit_eq_div)
  ultimately have "be_decode (be_encode (Suc k) v) = (unat v div 256) mod 256 ^ k * 256 + unat v mod 256"
    using Suc by (simp add: be_decode_snoc)
  also have "\<dots> = unat v mod 256 ^ Suc k"
    by (simp add: mod_mult2_eq mult.commute)
  finally show ?case .
qed

lemma length_PutUint64: "length (PutUint64 v) = 8"
  by (simp add: PutUint64_def length_be_encode)

lemma be_decode_PutUint64: "be_decode (PutUint64 v) = unat v"
proof -
  have "unat v < 256 ^ 8" using unsigned_less [of v, where ?'a = nat] by simp
  then show ?thesis by (simp add: PutUint64_def be_decode_be_encode)
qed

lemma Uint64_fold:
  "foldl (\<lambda>acc x. acc * 256 + ucast x) (word_of_nat a :: 64 word) bs =
   word_of_nat (foldl (\<lambda>acc b. acc * 256 + unat b) a (bs :: bytes))"
proof (induction bs arbitrary: a)
  case Nil
  then show ?case by simp
next
  case (Cons b bs)
  have "(word_of_nat a :: 64 word) * 256 + ucast b = word_of_nat (a * 256 + unat b)"
    by simp
  then show ?case using Cons [of "a * 256 + unat b"] by simp
qed

lemma Uint64_be_decode: "Uint64 b = word_of_nat (be_decode (take 8 b))"
  using Uint64_fold [of 0 "take 8 b"] by (simp add: Uint64_def be_decode_def)

lemma Uint64_PutUint64: "Uint64 (PutUint64 v) = v"
  by (simp add: Uint64_be_decode length_PutUint64 be_decode_PutUint64)

lemma unat_Uint64: "8 \<le> length l \<Longrightarrow> unat (Uint64 l) = be_decode (take 8 l)"
proof -
  assume "8 \<le> length l"
  then have "length (take 8 l) = 8" by simp
  with be_decode_bound [of "take 8 l"] have "be_decode (take 8 l) < 2 ^ 64" by simp
  then show ?thesis by (simp add: Uint64_be_decode unat_of_nat)
qed

lemma next_name_greater:
  assumes len: "8 \<le> length l" and nowrap: "Uint64 l \<noteq> - 1"
  shows "l < PutUint64 (Uint64 l + 1)"
proof -
  let ?n = "PutUint64 (Uint64 l + 1)"
  from nowrap have "1 + Uint64 l \<noteq> 0"
    by (metis add.commute max_word_wrap)
  then have "unat (Uint64 l + 1) = unat (Uint64 l) + 1"
    by (simp add: unatSuc add.commute)
  then have "be_decode (take 8 l) < be_decode ?n"
    using len by (simp add: be_decode_PutUint64 unat_Uint64)
  moreover from len have "length (take 8 l) = length ?n" by (simp add: length_PutUint64)
  ultimately have "take 8 l < ?n" by (rule be_decode_less_lex [rotated])
  then have "(take 8 l, ?n) \<in> lexord {(u, v). u < v}" by (simp add: list_less_def)
  moreover from len have "length ?n \<le> length (take 8 l)" by (simp add: length_PutUint64)
  ultimately have "(take 8 l @ drop 8 l, ?n @ []) \<in> lexord {(u, v). u < v}"
    by (rule lexord_sufI)
  then show ?thesis by (simp add: list_less_def)
qed

subsection \<open>Rotation\<close>

lemma length_put_entry_new:
  "map_of b k = None \<Longrightarrow> length (put_entry k v b) = Suc (length b)"
  by (induction b) (auto split: if_splits)

lemma CycleNodes_success:
  assumes s: "sorted_keys b" and ok: "CycleNodes m (Some b) = Inr d'"
  obtains b1 where "b1 = drop (min (nat (int (length b) - m)) (length b)) b"
    and "b1 \<noteq> []" and "8 \<le> length (fst (last b1))"
    and "map_of b1 (PutUint64 (Uint64 (fst (last b1)) + 1)) = None"
    and "d' = Some (put_entry (PutUint64 (Uint64 (fst (last b1)) + 1)) (Nested []) b1)"
proof -
  from ok obtain b1 where t: "trim (map fst b) (int (length b)) m b = Inr b1"
    by (auto simp: CycleNodes_def Let_def split: sum.splits)
  from trim_result [OF s t] have b1: "b1 = drop (min (nat (int (length b) - m)) (length b)) b" .
  from ok t obtain name where n: "nextKey (map_option fst (cursor_Last b1)) = Inr name"
    and c: "CreateBucket b1 name = Inr (the d')" and d: "d' = Some (the d')"
    by (auto simp: CycleNodes_def Let_def split: sum.splits)
  from n have ne: "b1 \<noteq> []" and len: "8 \<le> length (fst (last b1))"
    and name: "name = PutUint64 (Uint64 (fst (last b1)) + 1)"
    by (auto simp: nextKey_def cursor_Last_def split: option.splits if_splits)
  from c have "map_of b1 name = None" and "the d' = put_entry name (Nested []) b1"
    by (auto simp: CreateBucket_def split: if_splits option.splits child.splits)
  with that b1 ne len name d show thesis by metis
qed

lemma CycleNodes_count:
  assumes s: "sorted_keys b" and ok: "CycleNodes m (Some b) = Inr d'"
  shows "ring_count d' = (if int (length b) > m then m else int (length b)) + 1"
proof -
  from s ok obtain b1 where b1: "b1 = drop (min (nat (int (length b) - m)) (length b)) b"
    and ne: "b1 \<noteq> []"
    and new: "map_of b1 (PutUint64 (Uint64 (fst (last b1)) + 1)) = None"
    and d': "d' = Some (put_entry (PutUint64 (Uint64 (fst (last b1)) + 1)) (Nested []) b1)"
    by (rule CycleNodes_success)
  from d' new have "ring_count d' = int (length b1) + 1"
    by (simp add: ring_count_def length_put_entry_new)
  moreover from b1 ne have "int (length b1) = (if int (length b) > m then m else int (length b))"
    by (auto simp: min_def split: if_splits)
  ultimately show ?thesis by simp
qed

lemma CycleNodes_sorted:
  assumes s: "sorted_keys b" and ok: "CycleNodes m (Some b) = Inr d'"
  shows "\<exists>b'. d' = Some b' \<and> sorted_keys b'"
proof -
  from s ok obtain b1 where b1: "b1 = drop (min (nat (int (length b) - m)) (length b)) b"
    and d': "d' = Some (put_entry (PutUint64 (Uint64 (fst (last b1)) + 1)) (Nested []) b1)"
    by (rule CycleNodes_success)
  from s b1 have "sorted_keys b1" by (simp add: sorted_keys_drop)
  with d' show ?thesis by (simp add: sorted_keys_put_entry)
qed

lemma rotate_n_count:
  "sorted_keys b \<Longrightarrow> 1 \<le> m \<Longrightarrow> int (length b) \<le> m + 1 \<Longrightarrow> rotate_n n m (Some b) = Inr d \<Longrightarrow>
   ring_count d = min (int (length b) + int n) (m + 1)"
proof (induction n arbitrary: b)
  case 0
  then show ?case by (auto simp: ring_count_def)
next
  case (Suc n)
  from Suc.prems(4) obtain d1 where c: "CycleNodes m (Some b) = Inr d1"
    and r: "rotate_n n m d1 = Inr d"
    by (auto split: sum.splits)
  from CycleNodes_sorted [OF Suc.prems(1) c] obtain b1 where d1: "d1 = Some b1"
    and s1: "sorted_keys b1" by blast
  from CycleNodes_count [OF Suc.prems(1) c] d1
  have len1: "int (length b1) = (if int (length b) > m then m else int (length b)) + 1"
    by (simp add: ring_count_def)
  with Suc.prems(3) have "int (length b1) \<le> m + 1" by simp
  from Suc.IH [OF s1 Suc.prems(2) this r [unfolded d1]]
  have "ring_count d = min (int (length b1) + int n) (m + 1)" .
  with len1 Suc.prems(3) show ?case by (auto simp: min_def)
qed

text \<open>
  \<^bold>\<open>C3\<close> (as amended). Starting from the freshly initialised cache (one ring, named 0)
  with \<open>min_rings = m \<ge> 1\<close>, after \<open>n\<close> successful calls of \<^verbatim>\<open>CycleNodes\<close> with no writes in
  between the number of rings is \<open>min (n + 1) (m + 1)\<close>; so it lies in \<open>{m, m + 1}\<close> as
  soon as \<open>n \<ge> m - 1\<close>. With \<open>m = 2\<close>, five calls succeed and leave exactly 3 rings.
\<close>
theorem rotation_ring_count:
  "(1 \<le> m \<and> rotate_n n m fresh = Inr d \<longrightarrow>
      ring_count d = min (int n + 1) (m + 1) \<and>
      (m \<le> int n + 1 \<longrightarrow> ring_count d \<in> {m, m + 1}))
   \<and> (\<exists>d5. rotate_n 5 2 fresh = Inr d5 \<and> ring_count d5 = 3)"
proof (intro conjI impI)
  assume a: "1 \<le> m \<and> rotate_n n m fresh = Inr d"
  have s: "sorted_keys [(replicate 8 0, Nested [])]" by (simp add: sorted_keys_def)
  from a have "int (length [(replicate 8 (0::byte), Nested [])]) \<le> m + 1" by simp
  from rotate_n_count [OF s _ this, of n d] a
  show c: "ring_count d = min (int n + 1) (m + 1)" by (simp add: fresh_def)
  assume "m \<le> int n + 1"
  with c show "ring_count d \<in> {m, m + 1}" by (auto simp: min_def)
next
  have "rotate_n 5 2 fresh = Inr (Some [(PutUint64 3, Nested []), (PutUint64 4, Nested []),
      (PutUint64 5, Nested [])])"
    by code_simp
  then show "\<exists>d5. rotate_n 5 2 fresh = Inr d5 \<and> ring_count d5 = 3"
    by (simp add: ring_count_def)
qed

text \<open>The theorem at \<open>m = 2\<close>, \<open>n = 5\<close>: the five rotations succeed and leave the rings
  3, 4 and 5.\<close>
theorem rotation_ring_count_witness:
  "(1::int) \<le> 2 \<and>
   rotate_n 5 2 fresh = Inr (Some [([0,0,0,0,0,0,0,3], Nested []), ([0,0,0,0,0,0,0,4], Nested []),
      ([0,0,0,0,0,0,0,5], Nested [])]) \<and>
   ring_count (Some [([0,0,0,0,0,0,0,3], Nested []), ([0,0,0,0,0,0,0,4], Nested []),
      ([0,0,0,0,0,0,0,5], Nested [])]) \<in> {2, 2 + 1}"
proof -
  have r: "rotate_n 5 2 fresh = Inr (Some [([0,0,0,0,0,0,0,3], Nested []),
      ([0,0,0,0,0,0,0,4], Nested []), ([0,0,0,0,0,0,0,5], Nested [])])"
    by code_simp
  with rotation_ring_count [of 2 5 "Some [([0,0,0,0,0,0,0,3], Nested []),
      ([0,0,0,0,0,0,0,4], Nested []), ([0,0,0,0,0,0,0,5], Nested [])]"]
  show ?thesis by simp
qed

text \<open>
  As the specification states it, for every sequence of rotations, the claim fails on
  short sequences: with \<open>min_rings = 5\<close>, one rotation of the fresh cache succeeds and
  leaves 2 rings, which is neither 5 nor 6.
\<close>
theorem rotation_ring_count_counterexample:
  "rotate_n 1 5 fresh = Inr (Some [([0,0,0,0,0,0,0,0], Nested []), ([0,0,0,0,0,0,0,1], Nested [])]) \<and>
   ring_count (Some [([0,0,0,0,0,0,0,0], Nested []), ([0,0,0,0,0,0,0,1], Nested [])]) \<notin> {5, 5 + 1}"
proof
  show "rotate_n 1 5 fresh = Inr (Some [([0,0,0,0,0,0,0,0], Nested []), ([0,0,0,0,0,0,0,1], Nested [])])"
    by code_simp
  show "ring_count (Some [([0,0,0,0,0,0,0,0], Nested []), ([0,0,0,0,0,0,0,1], Nested [])]) \<notin> {5, 5 + 1}"
    by (simp add: ring_count_def)
qed

text \<open>
  Away from the last name the rotation does what its comment says. For every root bucket
  (its children in key order) with at least one child, whose last name does not decode to
  \<open>2\<^sup>6\<^sup>4 - 1\<close>: when \<^verbatim>\<open>CycleNodes\<close> returns without error, the child with the largest name is
  an empty bucket, its name has 8 bytes and decodes to the previous largest name plus
  one.
\<close>
theorem rotate_newest_is_empty_successor:
  assumes s: "sorted_keys b" and ne: "b \<noteq> []"
    and ok: "CycleNodes m (Some b) = Inr d'"
    and nowrap: "Uint64 (fst (last b)) \<noteq> - 1"
  shows "\<exists>b' name. d' = Some b' \<and> cursor_Last b' = Some (name, Nested []) \<and>
           length name = 8 \<and> Uint64 name = Uint64 (fst (last b)) + 1"
proof -
  from s ok obtain b1 where b1: "b1 = drop (min (nat (int (length b) - m)) (length b)) b"
    and ne1: "b1 \<noteq> []" and len: "8 \<le> length (fst (last b1))"
    and d': "d' = Some (put_entry (PutUint64 (Uint64 (fst (last b1)) + 1)) (Nested []) b1)"
    by (rule CycleNodes_success)
  let ?name = "PutUint64 (Uint64 (fst (last b)) + 1)"
  from b1 ne1 have last: "last b1 = last b" by (simp add: last_drop)
  from s b1 have s1: "sorted_keys b1" by (simp add: sorted_keys_drop)
  from len nowrap last have gt: "fst (last b1) < ?name" by (simp add: next_name_greater)
  have "\<forall>e\<in>set b1. fst e < ?name"
    using sorted_keys_last_greatest [OF s1] gt by (blast intro: le_less_trans)
  then have "put_entry ?name (Nested []) b1 = b1 @ [(?name, Nested [])]"
    by (rule put_entry_append)
  with d' last have "d' = Some (b1 @ [(?name, Nested [])])" by simp
  moreover have "cursor_Last (b1 @ [(?name, Nested [])]) = Some (?name, Nested [])"
    by (simp add: cursor_Last_def)
  ultimately show ?thesis by (simp add: length_PutUint64 Uint64_PutUint64)
qed

text \<open>The theorem at a root with the single ring 7, which holds one pair.\<close>
theorem rotate_newest_is_empty_successor_witness:
  "sorted_keys [([0,0,0,0,0,0,0,7], Nested [([107], [118])])] \<and>
   CycleNodes 2 (Some [([0,0,0,0,0,0,0,7], Nested [([107], [118])])]) =
     Inr (Some [([0,0,0,0,0,0,0,7], Nested [([107], [118])]), ([0,0,0,0,0,0,0,8], Nested [])]) \<and>
   Uint64 (fst (last [([0,0,0,0,0,0,0,7], Nested [([107], [118])])])) \<noteq> - 1 \<and>
   (\<exists>b' name. Some [([0,0,0,0,0,0,0,7], Nested [([107], [118])]), ([0,0,0,0,0,0,0,8], Nested [])] = Some b' \<and>
      cursor_Last b' = Some (name, Nested []) \<and> length name = 8 \<and>
      Uint64 name = Uint64 (fst (last [([0,0,0,0,0,0,0,7], Nested [([107], [118])])])) + 1)"
proof -
  have s: "sorted_keys [([0,0,0,0,0,0,0,7], Nested [([107], [118])])]"
    by (simp add: sorted_keys_def)
  have ne: "[([0,0,0,0,0,0,0,7::byte], Nested [([107], [118])])] \<noteq> []" by simp
  have ok: "CycleNodes 2 (Some [([0,0,0,0,0,0,0,7], Nested [([107], [118])])]) =
     Inr (Some [([0,0,0,0,0,0,0,7], Nested [([107], [118])]), ([0,0,0,0,0,0,0,8], Nested [])])"
    by code_simp
  have nw: "Uint64 (fst (last [([0,0,0,0,0,0,0,7], Nested [([107], [118])])])) \<noteq> - 1"
    by code_simp
  from rotate_newest_is_empty_successor [OF s ne ok nw] s ok nw show ?thesis by blast
qed

text \<open>
  \<^bold>\<open>C4\<close>. The claim: for every store in which the root holds at least one ring, after
  \<^verbatim>\<open>CycleNodes\<close> returns successfully the newest ring is empty and its name decodes to the
  previous newest name plus one; the comment of \<^verbatim>\<open>CycleNodes\<close> says the same, that it
  "creates a new, empty last node". The code at the rings 5 and \<open>0xFF\<dots>FF\<close>, the second one
  holding a pair, with \<open>min_rings = 2\<close>: \<^verbatim>\<open>nextKey\<close> adds one with no check for overflow, the
  successor of \<open>0xFF\<dots>FF\<close> wraps to 0, and \<^verbatim>\<open>CycleNodes\<close> returns without error after
  creating the ring 0 as the first child. The ring with the largest name is still
  \<open>0xFF\<dots>FF\<close>: it is not empty, and its name is not its own successor.
\<close>
theorem rotate_past_last_name:
  "sorted_keys [([0,0,0,0,0,0,0,5], Nested []),
                ([255,255,255,255,255,255,255,255], Nested [([107], [118])])] \<and>
   CycleNodes 2 (Some [([0,0,0,0,0,0,0,5], Nested []),
                       ([255,255,255,255,255,255,255,255], Nested [([107], [118])])]) =
     Inr (Some [([0,0,0,0,0,0,0,0], Nested []), ([0,0,0,0,0,0,0,5], Nested []),
                ([255,255,255,255,255,255,255,255], Nested [([107], [118])])]) \<and>
   cursor_Last [([0,0,0,0,0,0,0,0], Nested []), ([0,0,0,0,0,0,0,5], Nested []),
                ([255,255,255,255,255,255,255,255], Nested [([107], [118])])] =
     Some ([255,255,255,255,255,255,255,255], Nested [([107], [118])]) \<and>
   Uint64 [255,255,255,255,255,255,255,255] \<noteq> Uint64 [255,255,255,255,255,255,255,255] + 1"
proof (intro conjI)
  show "sorted_keys [([0,0,0,0,0,0,0,5], Nested []),
                ([255,255,255,255,255,255,255,255], Nested [([107], [118])])]"
    by (simp add: sorted_keys_def)
  show "CycleNodes 2 (Some [([0,0,0,0,0,0,0,5], Nested []),
                       ([255,255,255,255,255,255,255,255], Nested [([107], [118])])]) =
     Inr (Some [([0,0,0,0,0,0,0,0], Nested []), ([0,0,0,0,0,0,0,5], Nested []),
                ([255,255,255,255,255,255,255,255], Nested [([107], [118])])])"
    by code_simp
  show "cursor_Last [([0,0,0,0,0,0,0,0], Nested []), ([0,0,0,0,0,0,0,5], Nested []),
                ([255,255,255,255,255,255,255,255], Nested [([107], [118])])] =
     Some ([255,255,255,255,255,255,255,255], Nested [([107], [118])])"
    by (simp add: cursor_Last_def)
  show "Uint64 [255,255,255,255,255,255,255,255] \<noteq> Uint64 [255,255,255,255,255,255,255,255] + 1"
    by code_simp
qed

text \<open>
  \<^bold>\<open>C10\<close> (as amended). For a root that holds at least one ring and satisfies the invariant
  of the ring names, which is that \<^verbatim>\<open>VerifyBuckets\<close> passes (every child a bucket with a name
  of 8 bytes): when \<open>min_rings \<ge> 1\<close> the trimming loop succeeds and leaves a bucket whose
  last name has 8 bytes, so \<^verbatim>\<open>nextKey\<close> decodes it without a panic; and \<^verbatim>\<open>CycleNodes\<close> panics
  exactly when \<open>min_rings \<le> 0\<close>, where the loop trims every ring.
\<close>
theorem trim_leaves_a_ring:
  assumes ne: "b \<noteq> []" and s: "sorted_keys b" and v: "VerifyBuckets (Some b) = Inr ()"
  shows "(1 \<le> m \<longrightarrow>
            (\<exists>b1 k c. trim (map fst b) (int (length b)) m b = Inr b1 \<and>
               cursor_Last b1 = Some (k, c) \<and> length k = 8 \<and>
               nextKey (Some k) = Inr (PutUint64 (Uint64 k + 1))))
         \<and> (CycleNodes m (Some b) = Inl Panic \<longleftrightarrow> m \<le> 0)"
proof -
  let ?j = "min (nat (int (length b) - m)) (length b)"
  from v have all: "\<forall>e\<in>set b. (\<exists>r. snd e = Nested r) \<and> length (fst e) = 8"
    by (simp add: VerifyBuckets_def verify_each_iff)
  then have "\<forall>e\<in>set b. \<exists>r. snd e = Nested r" by blast
  from trim_succeeds [OF s this]
  have t: "trim (map fst b) (int (length b)) m b = Inr (drop ?j b)" .
  have pos: "1 \<le> m \<Longrightarrow> \<exists>k c. cursor_Last (drop ?j b) = Some (k, c) \<and> length k = 8 \<and>
      nextKey (Some k) = Inr (PutUint64 (Uint64 k + 1))"
  proof -
    assume m: "1 \<le> m"
    from ne have "0 < length b" by simp
    with m have "nat (int (length b) - m) < length b" by linarith
    then have lt: "?j < length b" by simp
    then have d: "drop ?j b \<noteq> []" by simp
    from lt have "last (drop ?j b) = last b" by (simp add: last_drop)
    moreover from ne have "last b \<in> set b" by simp
    ultimately have "length (fst (last (drop ?j b))) = 8" using all by simp
    with d show ?thesis
      by (cases "last (drop ?j b)") (simp add: cursor_Last_def nextKey_def)
  qed
  have neg: "m \<le> 0 \<Longrightarrow> CycleNodes m (Some b) = Inl Panic"
  proof -
    assume "m \<le> 0"
    then have "?j = length b" by (simp add: min_def) linarith
    then have "drop ?j b = []" by simp
    with t show ?thesis by (simp add: CycleNodes_def cursor_Last_def nextKey_def)
  qed
  have nopanic: "1 \<le> m \<Longrightarrow> CycleNodes m (Some b) \<noteq> Inl Panic"
  proof -
    assume m: "1 \<le> m"
    from pos [OF m] obtain k c where l: "cursor_Last (drop ?j b) = Some (k, c)"
      and n: "nextKey (Some k) = Inr (PutUint64 (Uint64 k + 1))" by blast
    then show ?thesis using t
      by (auto simp: CycleNodes_def CreateBucket_def split: sum.splits option.splits child.splits)
  qed
  show ?thesis
  proof (intro conjI impI iffI)
    assume "1 \<le> m"
    from pos [OF this] t
    show "\<exists>b1 k c. trim (map fst b) (int (length b)) m b = Inr b1 \<and>
               cursor_Last b1 = Some (k, c) \<and> length k = 8 \<and>
               nextKey (Some k) = Inr (PutUint64 (Uint64 k + 1))"
      by blast
  next
    assume p: "CycleNodes m (Some b) = Inl Panic"
    show "m \<le> 0"
    proof (rule ccontr)
      assume "\<not> m \<le> 0"
      then have "1 \<le> m" by simp
      from nopanic [OF this] p show False by simp
    qed
  next
    assume "m \<le> 0"
    then show "CycleNodes m (Some b) = Inl Panic" by (rule neg)
  qed
qed

text \<open>The theorem at the rings 0 and 1, with \<open>min_rings = 1\<close> (no panic) and
  \<open>min_rings = 0\<close> (panic).\<close>
theorem trim_leaves_a_ring_witness:
  "[([0,0,0,0,0,0,0,0], Nested []), ([0,0,0,0,0,0,0,1], Nested [])] \<noteq> [] \<and>
   sorted_keys [([0,0,0,0,0,0,0,0], Nested []), ([0,0,0,0,0,0,0,1], Nested [])] \<and>
   VerifyBuckets (Some [([0,0,0,0,0,0,0,0], Nested []), ([0,0,0,0,0,0,0,1], Nested [])]) = Inr () \<and>
   (1::int) \<le> 1 \<and>
   trim (map fst [([0,0,0,0,0,0,0,0], Nested []), ([0,0,0,0,0,0,0,1::byte], Nested [])]) 2 1
        [([0,0,0,0,0,0,0,0], Nested []), ([0,0,0,0,0,0,0,1], Nested [])] =
     Inr [([0,0,0,0,0,0,0,1], Nested [])] \<and>
   CycleNodes 1 (Some [([0,0,0,0,0,0,0,0], Nested []), ([0,0,0,0,0,0,0,1], Nested [])]) \<noteq> Inl Panic \<and>
   CycleNodes 0 (Some [([0,0,0,0,0,0,0,0], Nested []), ([0,0,0,0,0,0,0,1], Nested [])]) = Inl Panic"
proof -
  let ?b = "[([0,0,0,0,0,0,0,0], Nested []), ([0,0,0,0,0,0,0,1::byte], Nested [])]"
  have ne: "?b \<noteq> []" by simp
  have s: "sorted_keys ?b" by (simp add: sorted_keys_def)
  have v: "VerifyBuckets (Some ?b) = Inr ()" by (simp add: VerifyBuckets_def)
  have t: "trim (map fst ?b) 2 1 ?b = Inr [([0,0,0,0,0,0,0,1], Nested [])]"
    by (simp add: DeleteBucket_def del_entry_def)
  from trim_leaves_a_ring [OF ne s v, of 1] trim_leaves_a_ring [OF ne s v, of 0] ne s v t
  show ?thesis by simp
qed

subsection \<open>Looking keys up\<close>

lemma seek_lookup:
  "sorted_keys r \<Longrightarrow>
   (case cursor_Seek r k of None \<Rightarrow> None | Some e \<Rightarrow> if fst e = k then Some (snd e) else None)
     = map_of r k"
proof (induction r)
  case Nil
  then show ?case by (simp add: cursor_Seek_def)
next
  case (Cons e es)
  then have es: "sorted_keys es" and lt: "\<forall>x\<in>set es. fst e < fst x"
    by (simp_all add: sorted_keys_Cons)
  show ?case
  proof (cases "k \<le> fst e")
    case True
    show ?thesis
    proof (cases "fst e = k")
      case True
      then show ?thesis by (cases e) (simp add: cursor_Seek_def)
    next
      case False
      with True have "k < fst e" by simp
      with lt have "\<forall>x\<in>set es. fst x \<noteq> k" by auto
      then have "map_of es k = None" by (force simp: map_of_eq_None_iff)
      with True False show ?thesis by (cases e) (simp add: cursor_Seek_def)
    qed
  next
    case False
    then have "fst e \<noteq> k" by auto
    with False Cons.IH [OF es] show ?thesis by (cases e) (simp add: cursor_Seek_def)
  qed
qed

lemma seek_None: "sorted_keys r \<Longrightarrow> cursor_Seek r k = None \<Longrightarrow> map_of r k = None"
  using seek_lookup [of r k] by simp

lemma seek_Some:
  "sorted_keys r \<Longrightarrow> cursor_Seek r k = Some (k', v) \<Longrightarrow>
   map_of r k = (if k' = k then Some v else None)"
  using seek_lookup [of r k] by (auto split: if_splits)

lemma length_search_ring: "length (snd (search_ring r u nc pend res)) = length res"
  by (induction r u nc pend res rule: search_ring.induct) (auto split: option.splits prod.splits)

lemma search_ring_left:
  "sorted_keys r \<Longrightarrow>
   fst (search_ring r u nc pend res) = filter (\<lambda>p. map_of r (snd p) = None) pend"
proof (induction r u nc pend res rule: search_ring.induct)
  case (1 r u nc res)
  then show ?case by simp
next
  case (2 r u nc index searchBytes rest res)
  show ?case
  proof (cases "cursor_Seek r searchBytes")
    case None
    with 2 seek_None [OF "2.prems" None] show ?thesis by (simp add: case_prod_beta)
  next
    case (Some e)
    obtain key val where e: "e = (key, val)" by (cases e)
    from seek_Some [OF "2.prems" Some [unfolded e]]
    have m: "map_of r searchBytes = (if key = searchBytes then Some val else None)" .
    show ?thesis
    proof (cases "key = searchBytes")
      case True
      with 2 Some e m show ?thesis by simp
    next
      case False
      with 2 Some e m show ?thesis by (simp add: case_prod_beta)
    qed
  qed
qed

lemma search_ring_other:
  "i \<notin> fst ` set pend \<Longrightarrow> snd (search_ring r u nc pend res) ! i = res ! i"
  by (induction r u nc pend res rule: search_ring.induct)
     (auto split: option.splits prod.splits)

lemma search_ring_found:
  "sorted_keys r \<Longrightarrow> distinct (map fst pend) \<Longrightarrow> (i, k) \<in> set pend \<Longrightarrow> i < length res \<Longrightarrow>
    snd (search_ring r u nc pend res) ! i =
      (case map_of r k of
         None \<Rightarrow> res ! i
       | Some v \<Rightarrow> \<lparr>loc_bucket = u, loc_key = k, loc_value = Some v, needsCopy = nc\<rparr>)"
proof (induction r u nc pend res rule: search_ring.induct)
  case (1 r u nc res)
  then show ?case by simp
next
  case (2 r u nc index searchBytes rest res)
  note srt = "2.prems"(1)
  from "2.prems" have d: "distinct (map fst rest)" and nin: "index \<notin> fst ` set rest" by auto
  show ?case
  proof (cases "cursor_Seek r searchBytes")
    case None
    note m = seek_None [OF srt None]
    show ?thesis
    proof (cases "(i, k) = (index, searchBytes)")
      case True
      with None m nin show ?thesis by (simp add: search_ring_other case_prod_beta)
    next
      case False
      with "2.prems" have "(i, k) \<in> set rest" by auto
      from "2.IH"(1) [OF None srt d this "2.prems"(4)] None show ?thesis
        by (simp add: case_prod_beta)
    qed
  next
    case (Some e)
    obtain key val where e: "e = (key, val)" by (cases e)
    from seek_Some [OF srt Some [unfolded e]]
    have m: "map_of r searchBytes = (if key = searchBytes then Some val else None)" .
    show ?thesis
    proof (cases "key = searchBytes")
      case True
      show ?thesis
      proof (cases "(i, k) = (index, searchBytes)")
        case eq: True
        with Some e m True nin "2.prems"(4) show ?thesis by (simp add: search_ring_other)
      next
        case False
        with "2.prems" have mem: "(i, k) \<in> set rest" by auto
        with nin have "i \<noteq> index" by force
        with "2.IH"(2) [OF Some e [symmetric] True srt d mem] "2.prems"(4) Some e True
        show ?thesis by (simp split: option.splits)
      qed
    next
      case ne: False
      show ?thesis
      proof (cases "(i, k) = (index, searchBytes)")
        case True
        with Some e m ne nin show ?thesis by (simp add: search_ring_other case_prod_beta)
      next
        case False
        with "2.prems" have mem: "(i, k) \<in> set rest" by auto
        from "2.IH"(3) [OF Some e [symmetric] ne srt d mem "2.prems"(4)] Some e ne show ?thesis
          by (simp add: case_prod_beta)
      qed
    qed
  qed
qed

lemma search_rings_result:
  "search_rings bs nc pend res = Inr res' \<Longrightarrow>
   \<forall>e\<in>set bs. \<forall>r. snd e = Nested r \<longrightarrow> sorted_keys r \<Longrightarrow>
   distinct (map fst pend) \<Longrightarrow> \<forall>p\<in>set pend. fst p < length res \<Longrightarrow>
   length res' = length res \<and>
     (\<forall>p\<in>set pend. res' ! fst p = (case locate bs nc (snd p) of None \<Rightarrow> res ! fst p | Some l \<Rightarrow> l)) \<and>
     (\<forall>i. i \<notin> fst ` set pend \<longrightarrow> res' ! i = res ! i)"
proof (induction bs arbitrary: nc pend res)
  case Nil
  then show ?case by simp
next
  case (Cons x older)
  obtain n c where x: "x = (n, c)" by (cases x)
  show ?case
  proof (cases "pend = []")
    case True
    with Cons.prems(1) show ?thesis by (simp add: x)
  next
    case False
    with Cons.prems(1) x obtain r where c: "c = Nested r" and len: "8 \<le> length n"
      by (cases c) (auto split: if_splits)
    from Cons.prems(2) x c have sr: "sorted_keys r" by simp
    let ?left = "filter (\<lambda>p. map_of r (snd p) = None) pend"
    let ?res1 = "snd (search_ring r (Uint64 n) nc pend res)"
    have sr_eq: "fst (search_ring r (Uint64 n) nc pend res) = ?left"
      by (rule search_ring_left [OF sr])
    have l1: "length ?res1 = length res" by (rule length_search_ring)
    from Cons.prems(1) False len sr_eq have run: "search_rings older True ?left ?res1 = Inr res'"
      by (simp add: x c case_prod_beta)
    from Cons.prems(2) have p1: "\<forall>e\<in>set older. \<forall>r. snd e = Nested r \<longrightarrow> sorted_keys r"
      by simp
    from Cons.prems(3) have p2: "distinct (map fst ?left)" by (simp add: distinct_map_filter)
    from Cons.prems(4) l1 have p3: "\<forall>p\<in>set ?left. fst p < length ?res1" by simp
    from Cons.IH [OF run p1 p2 p3] have l': "length res' = length ?res1"
      and hit: "\<forall>p\<in>set ?left. res' ! fst p = (case locate older True (snd p) of None \<Rightarrow> ?res1 ! fst p | Some l \<Rightarrow> l)"
      and miss: "\<forall>i. i \<notin> fst ` set ?left \<longrightarrow> res' ! i = ?res1 ! i"
      by blast+
    from l' l1 have "length res' = length res" by simp
    moreover have "\<forall>p\<in>set pend. res' ! fst p = (case locate (x # older) nc (snd p) of None \<Rightarrow> res ! fst p | Some l \<Rightarrow> l)"
    proof
      fix p assume p: "p \<in> set pend"
      obtain i k where pk: "p = (i, k)" by (cases p)
      from Cons.prems(4) p pk have i: "i < length res" by auto
      from p pk have mem: "(i, k) \<in> set pend" by simp
      note found = search_ring_found [OF sr Cons.prems(3) mem i, of "Uint64 n" nc]
      show "res' ! fst p = (case locate (x # older) nc (snd p) of None \<Rightarrow> res ! fst p | Some l \<Rightarrow> l)"
      proof (cases "map_of r k")
        case None
        with mem have "(i, k) \<in> set ?left" by simp
        from bspec [OF hit this]
        have "res' ! i = (case locate older True k of None \<Rightarrow> ?res1 ! i | Some l \<Rightarrow> l)"
          by (simp split: option.splits)
        with found None show ?thesis by (simp add: pk x c split: option.splits)
      next
        case (Some v)
        have "i \<notin> fst ` set ?left"
        proof
          assume "i \<in> fst ` set ?left"
          then obtain k' where k': "(i, k') \<in> set pend" and n': "map_of r k' = None" by auto
          from Cons.prems(3) mem k' have "k' = k" by (meson eq_key_imp_eq_value)
          with n' Some show False by simp
        qed
        with miss have "res' ! i = ?res1 ! i" by simp
        with found Some show ?thesis by (simp add: pk x c split: option.splits)
      qed
    qed
    moreover have "\<forall>i. i \<notin> fst ` set pend \<longrightarrow> res' ! i = res ! i"
    proof (intro allI impI)
      fix i assume i: "i \<notin> fst ` set pend"
      then have "i \<notin> fst ` set ?left" by auto
      with miss have "res' ! i = ?res1 ! i" by simp
      with i show "res' ! i = res ! i" by (simp add: search_ring_other)
    qed
    ultimately show ?thesis by blast
  qed
qed

lemma search_rings_succeeds:
  "\<forall>e\<in>set bs. (\<exists>r. snd e = Nested r) \<and> 8 \<le> length (fst e) \<Longrightarrow>
   \<exists>res'. search_rings bs nc pend res = Inr res'"
proof (induction bs arbitrary: nc pend res)
  case Nil
  then show ?case by simp
next
  case (Cons x older)
  obtain n c where x: "x = (n, c)" by (cases x)
  from Cons.prems x obtain r where c: "c = Nested r" and len: "8 \<le> length n" by auto
  from Cons.prems have "\<forall>e\<in>set older. (\<exists>r. snd e = Nested r) \<and> 8 \<le> length (fst e)" by simp
  from Cons.IH [OF this] len show ?case by (simp add: x c case_prod_beta)
qed

lemma indexToLocation_result:
  assumes run: "indexToLocation (Some b) keys = Inr locs"
    and srt: "\<forall>e\<in>set b. \<forall>r. snd e = Nested r \<longrightarrow> sorted_keys r"
  shows "length locs = length keys \<and>
     (\<forall>i<length keys. locs ! i =
        (case locate (rev b) False (keys ! i) of None \<Rightarrow> zero_location | Some l \<Rightarrow> l))"
proof -
  let ?pend = "zip [0..<length keys] keys"
  let ?res = "replicate (length keys) zero_location"
  from run have r: "search_rings (rev b) False ?pend ?res = Inr locs"
    by (simp add: indexToLocation_def)
  from srt have a: "\<forall>e\<in>set (rev b). \<forall>r. snd e = Nested r \<longrightarrow> sorted_keys r" by simp
  have d: "distinct (map fst ?pend)" by simp
  have bd: "\<forall>p\<in>set ?pend. fst p < length ?res" by (auto simp: set_zip)
  from search_rings_result [OF r a d bd] have len: "length locs = length ?res"
    and hit: "\<forall>p\<in>set ?pend. locs ! fst p = (case locate (rev b) False (snd p) of None \<Rightarrow> ?res ! fst p | Some l \<Rightarrow> l)"
    by blast+
  have "\<forall>i<length keys. locs ! i =
        (case locate (rev b) False (keys ! i) of None \<Rightarrow> zero_location | Some l \<Rightarrow> l)"
  proof (intro allI impI)
    fix i assume i: "i < length keys"
    then have "(i, keys ! i) \<in> set ?pend" by (force simp: set_zip)
    from bspec [OF hit this]
    have "locs ! i = (case locate (rev b) False (keys ! i) of None \<Rightarrow> ?res ! i | Some l \<Rightarrow> l)"
      by (simp split: option.splits)
    with i show "locs ! i = (case locate (rev b) False (keys ! i) of None \<Rightarrow> zero_location | Some l \<Rightarrow> l)"
      by (simp split: option.splits)
  qed
  with len show ?thesis by simp
qed

lemma indexToLocation_succeeds:
  "VerifyBuckets (Some b) = Inr () \<Longrightarrow> \<exists>locs. indexToLocation (Some b) keys = Inr locs"
proof -
  assume "VerifyBuckets (Some b) = Inr ()"
  then have "\<forall>e\<in>set (rev b). (\<exists>r. snd e = Nested r) \<and> 8 \<le> length (fst e)"
    by (auto simp: VerifyBuckets_def verify_each_iff)
  from search_rings_succeeds [OF this] show ?thesis by (simp add: indexToLocation_def)
qed

lemma locate_None:
  "locate bs nc k = None \<longleftrightarrow> (\<forall>n r. (n, Nested r) \<in> set bs \<longrightarrow> map_of r k = None)"
proof (induction bs arbitrary: nc)
  case Nil
  then show ?case by simp
next
  case (Cons x bs)
  obtain n c where x: "x = (n, c)" by (cases x)
  from Cons [of True] show ?case
    by (cases c) (auto simp: x split: option.splits)
qed

lemma locate_Some:
  "locate bs nc k = Some l \<Longrightarrow>
   \<exists>newer n r older v. bs = newer @ (n, Nested r) # older \<and>
      (\<forall>n' r'. (n', Nested r') \<in> set newer \<longrightarrow> map_of r' k = None) \<and>
      map_of r k = Some v \<and>
      l = \<lparr>loc_bucket = Uint64 n, loc_key = k, loc_value = Some v, needsCopy = (nc \<or> newer \<noteq> [])\<rparr>"
proof (induction bs arbitrary: nc)
  case Nil
  then show ?case by simp
next
  case (Cons x bs)
  obtain n c where x: "x = (n, c)" by (cases x)
  show ?case
  proof (cases "\<exists>r v. c = Nested r \<and> map_of r k = Some v")
    case True
    then obtain r v where c: "c = Nested r" and m: "map_of r k = Some v" by blast
    with Cons.prems have "l = \<lparr>loc_bucket = Uint64 n, loc_key = k, loc_value = Some v, needsCopy = nc\<rparr>"
      by (simp add: x)
    with c m x have "x # bs = [] @ (n, Nested r) # bs \<and>
      (\<forall>n' r'. (n', Nested r') \<in> set [] \<longrightarrow> map_of r' k = None) \<and> map_of r k = Some v \<and>
      l = \<lparr>loc_bucket = Uint64 n, loc_key = k, loc_value = Some v, needsCopy = (nc \<or> [] \<noteq> ([] :: bucket))\<rparr>"
      by simp
    then show ?thesis by blast
  next
    case False
    with Cons.prems have rec: "locate bs True k = Some l"
      by (auto simp: x split: child.splits option.splits)
    from Cons.IH [OF rec] obtain newer n1 r older v where
      bs: "bs = newer @ (n1, Nested r) # older"
      and nf: "\<forall>n' r'. (n', Nested r') \<in> set newer \<longrightarrow> map_of r' k = None"
      and m: "map_of r k = Some v"
      and l: "l = \<lparr>loc_bucket = Uint64 n1, loc_key = k, loc_value = Some v, needsCopy = (True \<or> newer \<noteq> [])\<rparr>"
      by blast
    from False x have nx: "\<forall>n' r'. (n', Nested r') \<in> set (x # newer) \<longrightarrow> map_of r' k = None"
      using nf by (auto simp: not_Some_eq [symmetric] simp del: not_Some_eq)
    from bs have "x # bs = (x # newer) @ (n1, Nested r) # older" by simp
    moreover from l have "l = \<lparr>loc_bucket = Uint64 n1, loc_key = k, loc_value = Some v,
        needsCopy = (nc \<or> x # newer \<noteq> [])\<rparr>" by simp
    ultimately show ?thesis using nx m by blast
  qed
qed

lemma wf_sorted_rings:
  "well_formed b \<Longrightarrow> \<forall>e\<in>set b. \<forall>r. snd e = Nested r \<longrightarrow> sorted_keys r"
  by (auto simp: well_formed_def list_all_iff)


lemma search_ring_any_order:
  assumes sr: "sorted_keys r"
    and d: "distinct (map fst pend)" and d': "distinct (map fst pend')"
    and perm: "set pend' = set pend" and bd: "\<forall>p\<in>set pend. fst p < length res"
  shows "snd (search_ring r u nc pend' res) = snd (search_ring r u nc pend res)"
proof (rule nth_equalityI)
  show "length (snd (search_ring r u nc pend' res)) = length (snd (search_ring r u nc pend res))"
    by (simp add: length_search_ring)
next
  fix i assume "i < length (snd (search_ring r u nc pend' res))"
  then have i: "i < length res" by (simp add: length_search_ring)
  show "snd (search_ring r u nc pend' res) ! i = snd (search_ring r u nc pend res) ! i"
  proof (cases "i \<in> fst ` set pend")
    case True
    then obtain k where k: "(i, k) \<in> set pend" by auto
    with perm have k': "(i, k) \<in> set pend'" by simp
    from search_ring_found [OF sr d k i] search_ring_found [OF sr d' k' i] show ?thesis by simp
  next
    case False
    with perm show ?thesis by (simp add: search_ring_other)
  qed
qed

lemma search_rings_any_order:
  "\<forall>e\<in>set bs. \<forall>r. snd e = Nested r \<longrightarrow> sorted_keys r \<Longrightarrow>
   distinct (map fst pend) \<Longrightarrow> distinct (map fst pend') \<Longrightarrow> set pend' = set pend \<Longrightarrow>
   \<forall>p\<in>set pend. fst p < length res \<Longrightarrow>
   search_rings bs nc pend' res = search_rings bs nc pend res"
proof (induction bs arbitrary: nc pend pend' res)
  case Nil
  then show ?case by simp
next
  case (Cons x older)
  obtain n c where x: "x = (n, c)" by (cases x)
  from Cons.prems(4) have e: "pend' = [] \<longleftrightarrow> pend = []" by (metis set_empty)
  show ?case
  proof (cases c)
    case (Plain v)
    with e show ?thesis by (simp add: x)
  next
    case (Nested r)
    with Cons.prems(1) x have sr: "sorted_keys r" by simp
    let ?P = "\<lambda>p. map_of r (snd p) = None"
    let ?res1 = "snd (search_ring r (Uint64 n) nc pend res)"
    have r1: "snd (search_ring r (Uint64 n) nc pend' res) = ?res1"
      by (rule search_ring_any_order [OF sr Cons.prems(2,3,4,5)])
    from Cons.prems(1) have p1: "\<forall>e\<in>set older. \<forall>r. snd e = Nested r \<longrightarrow> sorted_keys r" by simp
    from Cons.prems(2) have p2: "distinct (map fst (filter ?P pend))" by (simp add: distinct_map_filter)
    from Cons.prems(3) have p3: "distinct (map fst (filter ?P pend'))" by (simp add: distinct_map_filter)
    from Cons.prems(4) have p4: "set (filter ?P pend') = set (filter ?P pend)" by simp
    from Cons.prems(5) have p5: "\<forall>p\<in>set (filter ?P pend). fst p < length ?res1"
      by (simp add: length_search_ring)
    from Cons.IH [OF p1 p2 p3 p4 p5, of True]
    have "search_rings older True (filter ?P pend') ?res1 = search_rings older True (filter ?P pend) ?res1" .
    with e r1 show ?thesis
      by (simp add: x Nested case_prod_beta search_ring_left [OF sr])
  qed
qed

lemma Read_succeeds:
  "VerifyBuckets (Some b) = Inr () \<Longrightarrow> \<exists>vals sent. Read readOnly (Some b) keys = Inr (vals, sent)"
  using indexToLocation_succeeds [of b keys] by (auto simp: Read_def)



text \<open>
  \<^bold>\<open>C7\<close> (as amended). On a well-formed store, when the lookup succeeds: on a database
  that is not read-only \<^verbatim>\<open>Read\<close> sends to the promoter exactly the locations whose
  \<^verbatim>\<open>needsCopy\<close> is set, in batch order, and on a read-only database it sends nothing; the
  flag of a key is set exactly when some ring holds the key and the newest ring (the last
  child of the root) does not, and then the location carries the key, the value and the
  number of the ring it was found in. A key found in the newest ring and a key found
  nowhere have the flag unset.
\<close>
theorem Read_promotion_requests:
  assumes wf: "well_formed b" and run: "indexToLocation (Some b) keys = Inr locs"
  shows "length locs = length keys \<and>
    Read False (Some b) keys = Inr (map loc_value locs, filter needsCopy locs) \<and>
    Read True (Some b) keys = Inr (map loc_value locs, []) \<and>
    (\<forall>i<length keys.
       (needsCopy (locs ! i) \<longleftrightarrow>
          (\<exists>n r. (n, Nested r) \<in> set b \<and> map_of r (keys ! i) \<noteq> None) \<and>
          (\<forall>r. snd (last b) = Nested r \<longrightarrow> map_of r (keys ! i) = None)) \<and>
       (needsCopy (locs ! i) \<longrightarrow>
          (\<exists>n r val. (n, Nested r) \<in> set b \<and> map_of r (keys ! i) = Some val \<and>
             locs ! i = \<lparr>loc_bucket = Uint64 n, loc_key = keys ! i, loc_value = Some val,
                          needsCopy = True\<rparr>)))"
proof -
  from indexToLocation_result [OF run wf_sorted_rings [OF wf]]
  have len: "length locs = length keys"
    and at: "\<forall>i<length keys. locs ! i =
        (case locate (rev b) False (keys ! i) of None \<Rightarrow> zero_location | Some l \<Rightarrow> l)"
    by blast+
  have "\<forall>i<length keys.
       (needsCopy (locs ! i) \<longleftrightarrow>
          (\<exists>n r. (n, Nested r) \<in> set b \<and> map_of r (keys ! i) \<noteq> None) \<and>
          (\<forall>r. snd (last b) = Nested r \<longrightarrow> map_of r (keys ! i) = None)) \<and>
       (needsCopy (locs ! i) \<longrightarrow>
          (\<exists>n r val. (n, Nested r) \<in> set b \<and> map_of r (keys ! i) = Some val \<and>
             locs ! i = \<lparr>loc_bucket = Uint64 n, loc_key = keys ! i, loc_value = Some val,
                          needsCopy = True\<rparr>))"
  proof (intro allI impI)
    fix i assume i: "i < length keys"
    let ?k = "keys ! i"
    let ?somewhere = "\<exists>n r. (n, Nested r) \<in> set b \<and> map_of r ?k \<noteq> None"
    let ?not_newest = "\<forall>r. snd (last b) = Nested r \<longrightarrow> map_of r ?k = None"
    let ?request = "\<exists>n r val. (n, Nested r) \<in> set b \<and> map_of r ?k = Some val \<and>
             locs ! i = \<lparr>loc_bucket = Uint64 n, loc_key = ?k, loc_value = Some val, needsCopy = True\<rparr>"
    show "(needsCopy (locs ! i) \<longleftrightarrow> ?somewhere \<and> ?not_newest) \<and> (needsCopy (locs ! i) \<longrightarrow> ?request)"
    proof (cases "locate (rev b) False ?k")
      case None
      with at i have "locs ! i = zero_location" by simp
      then have nc: "\<not> needsCopy (locs ! i)" by (simp add: zero_location_def)
      from locate_None [of "rev b" False ?k] None
      have "\<not> ?somewhere" by simp
      with nc show ?thesis by blast
    next
      case (Some l)
      from locate_Some [OF Some] obtain newer n r older val where
        split: "rev b = newer @ (n, Nested r) # older"
        and nf: "\<forall>n' r'. (n', Nested r') \<in> set newer \<longrightarrow> map_of r' ?k = None"
        and m: "map_of r ?k = Some val"
        and l: "l = \<lparr>loc_bucket = Uint64 n, loc_key = ?k, loc_value = Some val,
                    needsCopy = (False \<or> newer \<noteq> [])\<rparr>"
        by blast
      from at i Some have li: "locs ! i = l" by simp
      from split have mem: "(n, Nested r) \<in> set b" by (metis in_set_conv_decomp set_rev)
      with m have sw: ?somewhere by auto
      from split have bne: "b \<noteq> []" by auto
      then have lastb: "last b = hd (rev b)" by (simp add: hd_rev)
      show ?thesis
      proof (cases "newer = []")
        case True
        with split lastb have "snd (last b) = Nested r" by simp
        with m have "\<not> ?not_newest" by auto
        moreover from li l True have "\<not> needsCopy (locs ! i)" by simp
        ultimately show ?thesis by blast
      next
        case False
        with split lastb have hn: "last b = hd newer" and "hd newer \<in> set newer" by auto
        then have "last b \<in> set newer" by simp
        with nf have ?not_newest by (metis prod.collapse)
        moreover from li l False have nc: "needsCopy (locs ! i)" by simp
        moreover from li l False mem m have ?request by auto
        ultimately show ?thesis using sw by blast
      qed
    qed
  qed
  with run len show ?thesis by (simp add: Read_def)
qed

text \<open>The theorem at the store of two rings: only \<open>k\<close>, found in ring 0, is sent.\<close>
theorem Read_promotion_requests_witness:
  "well_formed store2 \<and>
   indexToLocation (Some store2) [[107], [108], [109]] =
     Inr [\<lparr>loc_bucket = 0, loc_key = [107], loc_value = Some [1], needsCopy = True\<rparr>,
          \<lparr>loc_bucket = 1, loc_key = [108], loc_value = Some [3], needsCopy = False\<rparr>,
          zero_location] \<and>
   Read False (Some store2) [[107], [108], [109]] =
     Inr ([Some [1], Some [3], None],
          [\<lparr>loc_bucket = 0, loc_key = [107], loc_value = Some [1], needsCopy = True\<rparr>])"
proof -
  have wf: "well_formed store2" by code_simp
  have l: "indexToLocation (Some store2) [[107], [108], [109]] =
     Inr [\<lparr>loc_bucket = 0, loc_key = [107], loc_value = Some [1], needsCopy = True\<rparr>,
          \<lparr>loc_bucket = 1, loc_key = [108], loc_value = Some [3], needsCopy = False\<rparr>,
          zero_location]"
    by code_simp
  from Read_promotion_requests [OF wf l] wf l show ?thesis by (simp add: zero_location_def)
qed

text \<open>
  As the specification states it, for every \<^verbatim>\<open>Read\<close>, the claim fails on a read-only
  database: \<^verbatim>\<open>Read\<close> sends only \<^verbatim>\<open>if !c.db.IsReadOnly()\<close>. The key \<open>k\<close> is in ring 0, which is
  not the newest ring, and nothing is sent for it.
\<close>
theorem Read_promotion_requests_counterexample:
  "Read True (Some store2) [[107]] = Inr ([Some [1]], []) \<and>
   Bucket store2 [0,0,0,0,0,0,0,0] = Some [([107], [1]), ([108], [2])] \<and>
   cursor_Last store2 = Some ([0,0,0,0,0,0,0,1], Nested [([108], [3])])"
  by code_simp

subsection \<open>Writing\<close>



lemma put_all_succeeds:
  "\<forall>p\<in>set kvs. Key p \<noteq> [] \<and> int (length (Key p)) \<le> MaxKeySize \<and> int (length (Value p)) \<le> MaxValueSize \<Longrightarrow>
   put_all r kvs = Inr (foldl (\<lambda>r p. put_entry (Key p) (Value p) r) r kvs)"
  by (induction kvs arbitrary: r) (auto simp: bucket_Put_def)




lemma Bucket_last:
  assumes s: "sorted_keys b" and ne: "b \<noteq> []"
  shows "Bucket b (fst (last b)) = (case snd (last b) of Nested r \<Rightarrow> Some r | Plain _ \<Rightarrow> None)"
proof -
  from s have "distinct (map fst b)" by (rule sorted_keys_distinct)
  moreover from ne have "(fst (last b), snd (last b)) \<in> set b" by simp
  ultimately have "map_of b (fst (last b)) = Some (snd (last b))" by (rule map_of_is_SomeI)
  then show ?thesis by (simp add: Bucket_def split: child.splits)
qed


lemma Write_succeeds:
  assumes wf: "well_formed b" and ne: "b \<noteq> []" and l: "snd (last b) = Nested r"
    and keys: "\<forall>p\<in>set towrite. Key p \<noteq> [] \<and> int (length (Key p)) \<le> MaxKeySize \<and> int (length (Value p)) \<le> MaxValueSize"
  shows "\<exists>d'. Write (Some b) towrite = Inr d'"
proof -
  from wf have srt: "sorted_keys b" by (simp add: well_formed_def)
  from Bucket_last [OF srt ne] l have "Bucket b (fst (last b)) = Some r" by simp
  with ne put_all_succeeds [OF keys, of r] show ?thesis
    by (simp add: Write_def cursor_Last_def)
qed


subsection \<open>Deleting\<close>

lemma seek_equal:
  "sorted_keys r \<Longrightarrow> k \<noteq> [] \<Longrightarrow>
   bytes_Equal (map_option fst (cursor_Seek r k)) k = (map_of r k \<noteq> None)"
proof -
  assume "sorted_keys r" and k: "k \<noteq> []"
  then have "map_of r k =
    (case cursor_Seek r k of None \<Rightarrow> None | Some e \<Rightarrow> if fst e = k then Some (snd e) else None)"
    by (simp add: seek_lookup)
  then show ?thesis using k
    by (cases "cursor_Seek r k") (simp_all add: bytes_Equal_def)
qed

lemma del_entry_absent: "map_of r k = None \<Longrightarrow> del_entry k r = r"
  by (auto simp: del_entry_def map_of_eq_None_iff filter_id_conv)

lemma map_of_del_entry: "map_of (del_entry k r) k' = (if k' = k then None else map_of r k')"
  by (induction r) (auto simp: del_entry_def)

lemma sorted_keys_filter: "sorted_keys r \<Longrightarrow> sorted_keys (filter (\<lambda>e. P (fst e)) r)"
proof -
  assume "sorted_keys r"
  then have "sorted_wrt (<) (filter P (map fst r))"
    unfolding sorted_keys_def by (rule sorted_wrt_filter)
  then show ?thesis by (simp add: sorted_keys_def filter_map comp_def)
qed

lemma sorted_keys_del_entry: "sorted_keys r \<Longrightarrow> sorted_keys (del_entry k r)"
  unfolding del_entry_def by (rule sorted_keys_filter)

lemma deleteKeys_step:
  assumes sr: "sorted_keys r" and k: "k \<noteq> []"
  shows "deleteKeys (k # ks) idx r ret =
         deleteKeys ks (Suc idx) (del_entry k r)
           (if map_of r k \<noteq> None then ret[idx := True] else ret)"
proof (cases "map_of r k")
  case None
  with seek_equal [OF sr k] show ?thesis by (simp add: del_entry_absent)
next
  case (Some v)
  with seek_equal [OF sr k] have eq: "bytes_Equal (map_option fst (cursor_Seek r k)) k" by simp
  with k obtain e where e: "cursor_Seek r k = Some e" and fe: "fst e = k"
    by (cases "cursor_Seek r k") (auto simp: bytes_Equal_def)
  with eq Some show ?thesis by (simp add: cursor_Delete_def)
qed

lemma deleteKeys_spec:
  "sorted_keys r \<Longrightarrow> \<forall>k\<in>set keys. k \<noteq> [] \<Longrightarrow> idx + length keys \<le> length ret \<Longrightarrow>
   fst (deleteKeys keys idx r ret) = filter (\<lambda>e. fst e \<notin> set keys) r \<and>
   length (snd (deleteKeys keys idx r ret)) = length ret \<and>
   (\<forall>j<length ret. snd (deleteKeys keys idx r ret) ! j =
      (ret ! j \<or> (idx \<le> j \<and> j < idx + length keys \<and> map_of r (keys ! (j - idx)) \<noteq> None \<and>
                  keys ! (j - idx) \<notin> set (take (j - idx) keys))))"
proof (induction keys arbitrary: idx r ret)
  case Nil
  then show ?case by auto
next
  case (Cons k ks)
  let ?r1 = "del_entry k r"
  let ?ret1 = "if map_of r k \<noteq> None then ret[idx := True] else ret"
  let ?out = "deleteKeys ks (Suc idx) ?r1 ?ret1"
  from Cons.prems have kne: "k \<noteq> []" and ksne: "\<forall>k\<in>set ks. k \<noteq> []" by simp_all
  have step: "deleteKeys (k # ks) idx r ret = ?out"
    by (rule deleteKeys_step [OF Cons.prems(1) kne])
  have s1: "sorted_keys ?r1" using Cons.prems(1) by (rule sorted_keys_del_entry)
  from Cons.prems(3) have bd: "Suc idx + length ks \<le> length ?ret1" by simp
  from Cons.IH [OF s1 ksne bd]
  have f: "fst ?out = filter (\<lambda>e. fst e \<notin> set ks) ?r1"
    and l: "length (snd ?out) = length ?ret1"
    and p: "\<forall>j<length ?ret1. snd ?out ! j =
      (?ret1 ! j \<or> (Suc idx \<le> j \<and> j < Suc idx + length ks \<and>
         map_of ?r1 (ks ! (j - Suc idx)) \<noteq> None \<and>
         ks ! (j - Suc idx) \<notin> set (take (j - Suc idx) ks)))"
    by blast+
  have "fst ?out = filter (\<lambda>e. fst e \<notin> set (k # ks)) r"
    using f by (auto simp: del_entry_def intro: filter_cong)
  moreover have "length (snd ?out) = length ret" using l by simp
  moreover have "\<forall>j<length ret. snd ?out ! j =
      (ret ! j \<or> (idx \<le> j \<and> j < idx + length (k # ks) \<and>
         map_of r ((k # ks) ! (j - idx)) \<noteq> None \<and>
         (k # ks) ! (j - idx) \<notin> set (take (j - idx) (k # ks))))"
  proof (intro allI impI)
    fix j assume j: "j < length ret"
    then have j1: "j < length ?ret1" by simp
    note pj = p [rule_format, OF j1]
    from Cons.prems(3) have idx: "idx < length ret" by simp
    consider (lt) "j < idx" | (eq) "j = idx" | (gt) "idx < j" by linarith
    then show "snd ?out ! j =
      (ret ! j \<or> (idx \<le> j \<and> j < idx + length (k # ks) \<and>
         map_of r ((k # ks) ! (j - idx)) \<noteq> None \<and>
         (k # ks) ! (j - idx) \<notin> set (take (j - idx) (k # ks))))"
    proof cases
      case lt
      with pj show ?thesis by simp
    next
      case eq
      with pj idx show ?thesis by simp
    next
      case gt
      then obtain m where m: "j - idx = Suc m" and m': "j - Suc idx = m"
        by (metis Suc_diff_Suc)
      from gt have r1j: "?ret1 ! j = ret ! j" by simp
      have "map_of ?r1 (ks ! m) \<noteq> None \<longleftrightarrow> ks ! m \<noteq> k \<and> map_of r (ks ! m) \<noteq> None"
        by (simp add: map_of_del_entry)
      with pj r1j gt m m' show ?thesis by auto
    qed
  qed
  ultimately show ?case using step by simp
qed

lemma delete_each_nested:
  "delete_each b keys ret = (ret', Inr b') \<Longrightarrow> \<forall>e\<in>set b. \<exists>r. snd e = Nested r"
proof (induction b arbitrary: ret ret' b')
  case Nil
  then show ?case by simp
next
  case (Cons x xs)
  obtain n c where x: "x = (n, c)" by (cases x)
  from Cons.prems x obtain r where c: "c = Nested r" by (cases c) auto
  obtain ret1 res1 where de: "delete_each xs keys (snd (deleteKeys keys 0 r ret)) = (ret1, res1)"
    by (cases "delete_each xs keys (snd (deleteKeys keys 0 r ret))")
  with Cons.prems x c obtain b1 where "res1 = Inr b1"
    by (cases res1) (auto simp: case_prod_beta)
  with de have "delete_each xs keys (snd (deleteKeys keys 0 r ret)) = (ret1, Inr b1)" by simp
  from Cons.IH [OF this] x c show ?case by simp
qed

lemma delete_each_succeeds:
  "\<forall>e\<in>set b. \<exists>r. snd e = Nested r \<Longrightarrow> \<exists>ret' b'. delete_each b keys ret = (ret', Inr b')"
proof (induction b arbitrary: ret)
  case Nil
  then show ?case by simp
next
  case (Cons x xs)
  obtain n c where x: "x = (n, c)" by (cases x)
  from Cons.prems x obtain r where c: "c = Nested r" by auto
  from Cons.prems have "\<forall>e\<in>set xs. \<exists>r. snd e = Nested r" by simp
  from Cons.IH [OF this, of "snd (deleteKeys keys 0 r ret)"] show ?case
    by (auto simp: x c case_prod_beta)
qed

lemma delete_each_spec:
  "delete_each b keys ret = (ret', Inr b') \<Longrightarrow>
   \<forall>e\<in>set b. \<forall>r. snd e = Nested r \<longrightarrow> sorted_keys r \<Longrightarrow>
   \<forall>k\<in>set keys. k \<noteq> [] \<Longrightarrow> length keys \<le> length ret \<Longrightarrow>
   b' = purge keys b \<and> length ret' = length ret \<and>
   (\<forall>j<length ret. ret' ! j =
      (ret ! j \<or> (j < length keys \<and> (\<exists>n r. (n, Nested r) \<in> set b \<and> map_of r (keys ! j) \<noteq> None) \<and>
                  keys ! j \<notin> set (take j keys))))"
proof (induction b arbitrary: ret ret' b')
  case Nil
  then show ?case by (simp add: purge_def)
next
  case (Cons x xs)
  obtain n c where x: "x = (n, c)" by (cases x)
  from Cons.prems(1) x obtain r where c: "c = Nested r" by (cases c) auto
  let ?r1 = "fst (deleteKeys keys 0 r ret)"
  let ?ret1 = "snd (deleteKeys keys 0 r ret)"
  obtain ret1 res1 where de: "delete_each xs keys ?ret1 = (ret1, res1)"
    by (cases "delete_each xs keys ?ret1")
  with Cons.prems(1) x c obtain b1 where res1: "res1 = Inr b1"
    by (cases res1) (auto simp: case_prod_beta)
  with de Cons.prems(1) x c have
    rec: "delete_each xs keys ?ret1 = (ret', Inr b1)" and b': "b' = (n, Nested ?r1) # b1"
    by (auto simp: case_prod_beta)
  from Cons.prems(2) x c have sr: "sorted_keys r" by simp
  from Cons.prems(4) have bd: "0 + length keys \<le> length ret" by simp
  from deleteKeys_spec [OF sr Cons.prems(3) bd]
  have f: "?r1 = filter (\<lambda>e. fst e \<notin> set keys) r"
    and l: "length ?ret1 = length ret"
    and p: "\<forall>j<length ret. ?ret1 ! j =
      (ret ! j \<or> (j < length keys \<and> map_of r (keys ! j) \<noteq> None \<and> keys ! j \<notin> set (take j keys)))"
    by simp_all
  from Cons.prems(2) have srs: "\<forall>e\<in>set xs. \<forall>r. snd e = Nested r \<longrightarrow> sorted_keys r" by simp
  from Cons.prems(4) l have bd1: "length keys \<le> length ?ret1" by simp
  from Cons.IH [OF rec srs Cons.prems(3) bd1]
  have b1: "b1 = purge keys xs" and l': "length ret' = length ?ret1"
    and p': "\<forall>j<length ?ret1. ret' ! j =
      (?ret1 ! j \<or> (j < length keys \<and> (\<exists>n r. (n, Nested r) \<in> set xs \<and> map_of r (keys ! j) \<noteq> None) \<and>
                  keys ! j \<notin> set (take j keys)))"
    by blast+
  from b' b1 f have "b' = purge keys (x # xs)" by (simp add: purge_def x c)
  moreover from l l' have "length ret' = length ret" by simp
  moreover have "\<forall>j<length ret. ret' ! j =
      (ret ! j \<or> (j < length keys \<and> (\<exists>n r. (n, Nested r) \<in> set (x # xs) \<and> map_of r (keys ! j) \<noteq> None) \<and>
                  keys ! j \<notin> set (take j keys)))"
  proof (intro allI impI)
    fix j assume j: "j < length ret"
    with l have "j < length ?ret1" by simp
    from p' [rule_format, OF this] p [rule_format, OF j]
    show "ret' ! j =
      (ret ! j \<or> (j < length keys \<and> (\<exists>n r. (n, Nested r) \<in> set (x # xs) \<and> map_of r (keys ! j) \<noteq> None) \<and>
                  keys ! j \<notin> set (take j keys)))"
      by (auto simp: x c)
  qed
  ultimately show ?case by blast
qed

lemma map_of_filter_out: "k \<in> set keys \<Longrightarrow> map_of (filter (\<lambda>p. fst p \<notin> set keys) r) k = None"
  by (induction r) auto

lemma purge_absent:
  "(n, Nested r) \<in> set (purge keys b) \<Longrightarrow> k \<in> set keys \<Longrightarrow> map_of r k = None"
  by (auto simp: purge_def map_of_filter_out split: child.splits)

lemma purge_idem: "purge keys (purge keys b) = purge keys b"
  by (auto simp: purge_def split: child.splits)

lemma purge_sorted:
  "\<forall>e\<in>set b. \<forall>r. snd e = Nested r \<longrightarrow> sorted_keys r \<Longrightarrow>
   \<forall>e\<in>set (purge keys b). \<forall>r. snd e = Nested r \<longrightarrow> sorted_keys r"
  by (auto simp: purge_def sorted_keys_filter [where P = "\<lambda>k. k \<notin> set keys"] split: child.splits)

lemma purge_nested:
  "\<forall>e\<in>set b. \<exists>r. snd e = Nested r \<Longrightarrow> \<forall>e\<in>set (purge keys b). \<exists>r. snd e = Nested r"
  by (auto simp: purge_def split: child.splits)

text \<open>
  \<^bold>\<open>C6\<close> (as amended). On a well-formed store and a batch of keys none of which is empty,
  whenever \<^verbatim>\<open>Delete\<close> returns without error: there is one flag per key; the new store is the
  old one with every key of the batch removed from every ring and nothing else changed;
  the flag at position \<open>i\<close> is true exactly when some ring held key \<open>i\<close> before the call and
  the key does not occur earlier in the batch; and the same \<^verbatim>\<open>Delete\<close> again returns
  all-false and changes nothing.
\<close>
theorem Delete_flags_and_removal:
  assumes wf: "well_formed b" and ne: "\<forall>k\<in>set keys. k \<noteq> []"
    and ok: "Delete (Some b) keys = (ret, Inr d')"
  shows "length ret = length keys \<and> d' = Some (purge keys b) \<and>
    (\<forall>i<length keys.
       ret ! i = ((\<exists>n r. (n, Nested r) \<in> set b \<and> map_of r (keys ! i) \<noteq> None) \<and>
                  keys ! i \<notin> set (take i keys))) \<and>
    Delete d' keys = (replicate (length keys) False, Inr d')"
proof -
  let ?ret0 = "replicate (length keys) False"
  note srs = wf_sorted_rings [OF wf]
  obtain ret1 res1 where de: "delete_each b keys ?ret0 = (ret1, res1)"
    by (cases "delete_each b keys ?ret0")
  with ok obtain b' where res1: "res1 = Inr b'" and d': "d' = Some b'" and ret: "ret = ret1"
    by (cases res1) (auto simp: Delete_def Let_def)
  from de res1 ret have run: "delete_each b keys ?ret0 = (ret, Inr b')" by simp
  have bd: "length keys \<le> length ?ret0" by simp
  from delete_each_spec [OF run srs ne bd]
  have b': "b' = purge keys b" and len: "length ret = length keys"
    and flags: "\<forall>j<length keys. ret ! j =
      ((\<exists>n r. (n, Nested r) \<in> set b \<and> map_of r (keys ! j) \<noteq> None) \<and> keys ! j \<notin> set (take j keys))"
    by simp_all
  from delete_each_nested [OF run] have nested: "\<forall>e\<in>set b. \<exists>r. snd e = Nested r" .
  from delete_each_succeeds [OF purge_nested [OF nested], of keys keys ?ret0]
  obtain ret2 b2 where run2: "delete_each (purge keys b) keys ?ret0 = (ret2, Inr b2)" by blast
  from delete_each_spec [OF run2 purge_sorted [OF srs] ne bd]
  have b2: "b2 = purge keys b" and len2: "length ret2 = length keys"
    and flags2: "\<forall>j<length keys. ret2 ! j =
      ((\<exists>n r. (n, Nested r) \<in> set (purge keys b) \<and> map_of r (keys ! j) \<noteq> None) \<and>
       keys ! j \<notin> set (take j keys))"
    by (simp_all add: purge_idem)
  have "ret2 = ?ret0"
  proof (rule nth_equalityI)
    show "length ret2 = length ?ret0" using len2 by simp
  next
    fix j assume "j < length ret2"
    with len2 have j: "j < length keys" by simp
    then have "keys ! j \<in> set keys" by simp
    have "\<not> (\<exists>n r. (n, Nested r) \<in> set (purge keys b) \<and> map_of r (keys ! j) \<noteq> None)"
    proof
      assume "\<exists>n r. (n, Nested r) \<in> set (purge keys b) \<and> map_of r (keys ! j) \<noteq> None"
      then obtain n r where m: "(n, Nested r) \<in> set (purge keys b)"
        and "map_of r (keys ! j) \<noteq> None" by blast
      with purge_absent [OF m \<open>keys ! j \<in> set keys\<close>] show False by simp
    qed
    with flags2 j show "ret2 ! j = ?ret0 ! j" by simp
  qed
  with run2 b2 have "Delete (Some (purge keys b)) keys = (?ret0, Inr (Some (purge keys b)))"
    by (simp add: Delete_def Let_def)
  with b' d' len flags show ?thesis by simp
qed

text \<open>The theorem at the store of two rings and the keys \<open>l\<close> and \<open>m\<close>.\<close>
theorem Delete_flags_and_removal_witness:
  "well_formed store2 \<and> [108] \<noteq> ([] :: bytes) \<and> [109] \<noteq> ([] :: bytes) \<and>
   Delete (Some store2) [[108], [109]] =
     ([True, False], Inr (Some [([0,0,0,0,0,0,0,0], Nested [([107], [1])]),
                                ([0,0,0,0,0,0,0,1], Nested [])])) \<and>
   Delete (Some [([0,0,0,0,0,0,0,0], Nested [([107], [1])]), ([0,0,0,0,0,0,0,1], Nested [])])
       [[108], [109]] =
     (replicate (length [[108], [109::byte]]) False,
      Inr (Some [([0,0,0,0,0,0,0,0], Nested [([107], [1])]), ([0,0,0,0,0,0,0,1], Nested [])]))"
proof -
  have wf: "well_formed store2" by code_simp
  have ne: "\<forall>k\<in>set [[108], [109::byte]]. k \<noteq> []" by simp
  have d: "Delete (Some store2) [[108], [109]] =
     ([True, False], Inr (Some [([0,0,0,0,0,0,0,0], Nested [([107], [1])]),
                                ([0,0,0,0,0,0,0,1], Nested [])]))"
    by code_simp
  have d2: "Delete (Some [([0,0,0,0,0,0,0,0], Nested [([107], [1])]), ([0,0,0,0,0,0,0,1], Nested [])])
       [[108], [109]] =
     (replicate (length [[108], [109::byte]]) False,
      Inr (Some [([0,0,0,0,0,0,0,0], Nested [([107], [1])]), ([0,0,0,0,0,0,0,1], Nested [])]))"
    by code_simp
  from Delete_flags_and_removal [OF wf ne d] wf d d2 show ?thesis by simp
qed

text \<open>
  As the specification states it, the flag at position \<open>i\<close> being true if and only if key
  \<open>i\<close> was present before the call, the claim fails on a batch that names a key twice: the
  first occurrence deletes the key, the second one no longer finds it. \<open>k\<close> was in ring 0
  before the call, and the flags are true, false.
\<close>
theorem Delete_flags_counterexample:
  "Delete (Some store2) [[107], [107]] =
     ([True, False], Inr (Some [([0,0,0,0,0,0,0,0], Nested [([108], [2])]),
                                ([0,0,0,0,0,0,0,1], Nested [([108], [3])])])) \<and>
   Bucket store2 [0,0,0,0,0,0,0,0] = Some [([107], [1]), ([108], [2])] \<and>
   map_of [([107], [1]), ([108], [2::byte])] ([[107], [107::byte]] ! 1) = Some [1]"
  by code_simp

lemma Delete_empty_key_flag:
  "Delete (Some store2) [[]] = ([False], Inr (Some store2)) \<and>
   Delete (Some [([0,0,0,0,0,0,0,0], Nested [([107], [1])]), ([0,0,0,0,0,0,0,1], Nested [])]) [[]] =
     ([True], Inr (Some [([0,0,0,0,0,0,0,0], Nested [([107], [1])]), ([0,0,0,0,0,0,0,1], Nested [])]))"
  by code_simp

subsection \<open>Promotion\<close>

lemma group_fold:
  "foldl (\<lambda>m r. m(loc_bucket r := m (loc_bucket r) @ [r])) m rs bucketID =
   m bucketID @ filter (\<lambda>r. loc_bucket r = bucketID) rs"
  by (induction rs arbitrary: m) auto

lemma group_by_bucket_eq:
  "group_by_bucket rs bucketID = filter (\<lambda>r. loc_bucket r = bucketID) rs"
  by (simp add: group_by_bucket_def group_fold)

lemma map_of_set_ring:
  "map_of (set_ring b n0 r) n =
   (if n = n0 then map_option (\<lambda>_. Nested r) (map_of b n) else map_of b n)"
  by (induction b) (auto simp: set_ring_def)

lemma Bucket_set_ring_None:
  "Bucket b n0 = Some r0 \<Longrightarrow> (Bucket (set_ring b n0 r) n = None) = (Bucket b n = None)"
  by (auto simp: Bucket_def map_of_set_ring split: option.splits child.splits)

lemma cleanup_keeps_buckets:
  assumes "cleanupBucketsFunc b oldName lastName readLoc = Inr (w, b')"
  shows "(Bucket b' n = None) = (Bucket b n = None)"
proof -
  from assms obtain old where old: "Bucket b oldName = Some old"
    by (auto simp: cleanupBucketsFunc_def split: option.splits)
  let ?pos = "cursor_Seek old (loc_key readLoc)"
  let ?w = "bytes_Equal (map_option fst ?pos) (loc_key readLoc)"
  let ?b1 = "if ?w then set_ring b oldName (cursor_Delete old ?pos) else b"
  have b1: "(Bucket ?b1 n = None) = (Bucket b n = None)" for n
    using old by (simp add: Bucket_set_ring_None)
  from assms old obtain lastBucket r where l: "Bucket ?b1 lastName = Some lastBucket"
    and b': "b' = set_ring ?b1 lastName r"
    by (auto simp: cleanupBucketsFunc_def Let_def split: option.splits sum.splits)
  from Bucket_set_ring_None [OF l, of r n] b' b1 [of n] show ?thesis by simp
qed

lemma move_items_keeps_buckets:
  "move_items b oldName lastName rls counts = Inr (b', counts') \<Longrightarrow>
   (Bucket b' n = None) = (Bucket b n = None)"
proof (induction rls arbitrary: b counts)
  case Nil
  then show ?case by simp
next
  case (Cons rl rls)
  from Cons.prems obtain w b1 where c: "cleanupBucketsFunc b oldName lastName rl = Inr (w, b1)"
    and rest: "move_items b1 oldName lastName rls
        (fst counts + 1, if w then snd counts + 1 else snd counts) = Inr (b', counts')"
    by (auto split: sum.splits)
  from Cons.IH [OF rest] cleanup_keeps_buckets [OF c, of n] show ?case by simp
qed

lemma move_groups_skip_missing:
  "\<forall>n. (Bucket b' n = None) = (Bucket b n = None) \<Longrightarrow>
   \<forall>bucketID. Bucket b (PutUint64 bucketID) \<noteq> None \<longrightarrow> m' bucketID = m bucketID \<Longrightarrow>
   move_groups b' lastName m order counts =
   move_groups b' lastName m' (filter (\<lambda>bucketID. Bucket b (PutUint64 bucketID) \<noteq> None) order) counts"
proof (induction order arbitrary: b' counts)
  case Nil
  then show ?case by simp
next
  case (Cons bucketID order)
  show ?case
  proof (cases "Bucket b' (PutUint64 bucketID)")
    case None
    with Cons.prems(1) have "Bucket b (PutUint64 bucketID) = None" by simp
    with None Cons.IH [OF Cons.prems] show ?thesis by simp
  next
    case (Some old)
    with Cons.prems(1) have ex: "Bucket b (PutUint64 bucketID) \<noteq> None" by (metis option.distinct(1))
    with Cons.prems(2) have mm: "m' bucketID = m bucketID" by simp
    show ?thesis
    proof (cases "move_items b' (PutUint64 bucketID) lastName (m bucketID) counts")
      case (Inl e)
      with Some ex mm show ?thesis by simp
    next
      case (Inr res)
      obtain b'' counts' where res: "res = (b'', counts')" by (cases res)
      from move_items_keeps_buckets [OF Inr [unfolded res]] Cons.prems(1)
      have "\<forall>n. (Bucket b'' n = None) = (Bucket b n = None)" by simp
      from Cons.IH [OF this Cons.prems(2)] Some ex mm Inr res show ?thesis by simp
    qed
  qed
qed

lemma move_groups_empty_map:
  "move_groups b lastName (\<lambda>_. []) order counts = Inr (b, counts)"
  by (induction order) (auto split: option.splits)

text \<open>
  \<^bold>\<open>C1\<close> (as amended). In whatever order the groups are visited, the locations whose source
  ring no longer exists have no effect on what \<^verbatim>\<open>moveRecentReads\<close> does: the outcome (error,
  or store and counters) is that of the batch without them, nothing is deleted for them
  and nothing is inserted for them, and they are not counted as recopied. When no
  location of the batch has a source ring left, a successful call leaves the store as it
  was, with both counters 0.
\<close>
theorem promotion_skips_missing_source:
  "moveRecentReads order (Some b) readLocations =
     moveRecentReads (filter (\<lambda>bucketID. Bucket b (PutUint64 bucketID) \<noteq> None) order) (Some b)
       (filter (\<lambda>r. Bucket b (PutUint64 (loc_bucket r)) \<noteq> None) readLocations)
   \<and> (range_order readLocations order \<longrightarrow>
        range_order (filter (\<lambda>r. Bucket b (PutUint64 (loc_bucket r)) \<noteq> None) readLocations)
          (filter (\<lambda>bucketID. Bucket b (PutUint64 bucketID) \<noteq> None) order))
   \<and> ((\<forall>r\<in>set readLocations. Bucket b (PutUint64 (loc_bucket r)) = None) \<and>
        moveRecentReads order (Some b) readLocations = Inr res \<longrightarrow> res = (Some b, 0, 0))"
proof (intro conjI impI)
  let ?ex = "\<lambda>bucketID. Bucket b (PutUint64 bucketID) \<noteq> None"
  let ?rs' = "filter (\<lambda>r. ?ex (loc_bucket r)) readLocations"
  have agree: "\<forall>bucketID. ?ex bucketID \<longrightarrow> group_by_bucket ?rs' bucketID = group_by_bucket readLocations bucketID"
    by (auto simp: group_by_bucket_eq intro: filter_cong)
  have inv: "\<forall>n. (Bucket b n = None) = (Bucket b n = None)" by simp
  have eq: "move_groups b lastName (group_by_bucket readLocations) order (0, 0) =
        move_groups b lastName (group_by_bucket ?rs') (filter ?ex order) (0, 0)" for lastName
    by (rule move_groups_skip_missing [OF inv agree])
  show main: "moveRecentReads order (Some b) readLocations = moveRecentReads (filter ?ex order) (Some b) ?rs'"
    by (simp only: moveRecentReads_def option.case eq)
  {
    assume "range_order readLocations order"
    then show "range_order ?rs' (filter ?ex order)"
      by (auto simp: range_order_def)
  }
  {
    assume a: "(\<forall>r\<in>set readLocations. Bucket b (PutUint64 (loc_bucket r)) = None) \<and>
        moveRecentReads order (Some b) readLocations = Inr res"
    then have e: "?rs' = []" by (auto simp: filter_empty_conv)
    from a have "moveRecentReads order (Some b) readLocations = Inr res" by simp
    then have "moveRecentReads (filter ?ex order) (Some b) ?rs' = Inr res"
      by (simp only: main)
    then have "moveRecentReads (filter ?ex order) (Some b) [] = Inr res"
      by (simp only: e)
    then show "res = (Some b, 0, 0)"
      by (auto simp: moveRecentReads_def group_by_bucket_def move_groups_empty_map
               split: option.splits)
  }
qed

text \<open>The theorem at a store with the rings 1 and 2 and a batch of one location read
  from ring 0.\<close>
theorem promotion_skips_missing_source_witness:
  "range_order [\<lparr>loc_bucket = 0, loc_key = [107], loc_value = Some [118], needsCopy = True\<rparr>] [0] \<and>
   Bucket [([0,0,0,0,0,0,0,1], Nested []), ([0,0,0,0,0,0,0,2], Nested [])] (PutUint64 0) = None \<and>
   moveRecentReads [0] (Some [([0,0,0,0,0,0,0,1], Nested []), ([0,0,0,0,0,0,0,2], Nested [])])
     [\<lparr>loc_bucket = 0, loc_key = [107], loc_value = Some [118], needsCopy = True\<rparr>] =
     Inr (Some [([0,0,0,0,0,0,0,1], Nested []), ([0,0,0,0,0,0,0,2], Nested [])], 0, 0)"
proof -
  have ro: "range_order [\<lparr>loc_bucket = 0, loc_key = [107], loc_value = Some [118], needsCopy = True\<rparr>] [0]"
    by (simp add: range_order_def)
  have miss: "\<forall>r\<in>set [\<lparr>loc_bucket = 0, loc_key = [107], loc_value = Some [118], needsCopy = True\<rparr>].
      Bucket [([0,0,0,0,0,0,0,1], Nested []), ([0,0,0,0,0,0,0,2], Nested [])]
        (PutUint64 (loc_bucket r)) = None"
    by code_simp
  have run: "moveRecentReads [0] (Some [([0,0,0,0,0,0,0,1], Nested []), ([0,0,0,0,0,0,0,2], Nested [])])
     [\<lparr>loc_bucket = 0, loc_key = [107], loc_value = Some [118], needsCopy = True\<rparr>] =
     Inr (Some [([0,0,0,0,0,0,0,1], Nested []), ([0,0,0,0,0,0,0,2], Nested [])], 0, 0)"
    by code_simp
  from promotion_skips_missing_source [of "[0]"
      "[([0,0,0,0,0,0,0,1], Nested []), ([0,0,0,0,0,0,0,2], Nested [])]"
      "[\<lparr>loc_bucket = 0, loc_key = [107], loc_value = Some [118], needsCopy = True\<rparr>]"]
    ro miss run
  show ?thesis by simp
qed

text \<open>
  As the specification states it, the items of a group with no source ring being still
  inserted into the newest ring, the claim fails: the insertion is inside
  \<^verbatim>\<open>if oldBucket != nil\<close>. The store holds the ring 1 only, the batch one location read from
  ring 0; the call succeeds, and the newest ring is as empty as before.
\<close>
theorem promotion_missing_source_counterexample:
  "range_order [\<lparr>loc_bucket = 0, loc_key = [107], loc_value = Some [118], needsCopy = True\<rparr>] [0] \<and>
   Bucket [([0,0,0,0,0,0,0,1], Nested [])] (PutUint64 0) = None \<and>
   moveRecentReads [0] (Some [([0,0,0,0,0,0,0,1], Nested [])])
     [\<lparr>loc_bucket = 0, loc_key = [107], loc_value = Some [118], needsCopy = True\<rparr>] =
     Inr (Some [([0,0,0,0,0,0,0,1], Nested [])], 0, 0) \<and>
   cursor_Last [([0,0,0,0,0,0,0,1], Nested [])] = Some ([0,0,0,0,0,0,0,1], Nested []) \<and>
   map_of ([] :: ring) [107] \<noteq> Some [118]"
proof (intro conjI)
  show "range_order [\<lparr>loc_bucket = 0, loc_key = [107], loc_value = Some [118], needsCopy = True\<rparr>] [0]"
    by (simp add: range_order_def)
qed code_simp+

lemma promotion_moves_found_item:
  "moveRecentReads [0] (Some store2)
     [\<lparr>loc_bucket = 0, loc_key = [107], loc_value = Some [1], needsCopy = True\<rparr>] =
     Inr (Some [([0,0,0,0,0,0,0,0], Nested [([108], [2])]),
                ([0,0,0,0,0,0,0,1], Nested [([107], [1]), ([108], [3])])], 1, 1)"
  by code_simp

subsection \<open>The promoter's queue\<close>





lemma drain_panics:
  "drainAllMovements maxCap c maxBatchSize = Panics \<longleftrightarrow> maxBatchSize < 0 \<or> maxCap < maxBatchSize"
  by (cases "buf c") (auto simp: drainAllMovements_def case_prod_beta)

subsection \<open>The invariant of the ring names\<close>

text \<open>\<^verbatim>\<open>init\<close> establishes what \<^verbatim>\<open>VerifyBuckets\<close> checks, and rotation, writing and deleting
  keep it.\<close>

lemma init_fresh: "init False None = Inr fresh"
  by (simp add: init_def fresh_def cursor_First_def CreateBucket_def)

lemma VerifyBuckets_fresh: "VerifyBuckets fresh = Inr ()"
  by (simp add: VerifyBuckets_def fresh_def)

lemma set_put_entry_full: "set (put_entry k v b) \<subseteq> insert (k, v) (set b)"
  by (induction b) auto

lemma CycleNodes_keeps_names:
  assumes s: "sorted_keys b" and v: "VerifyBuckets (Some b) = Inr ()"
    and ok: "CycleNodes m (Some b) = Inr d'"
  shows "VerifyBuckets d' = Inr ()"
proof -
  from s ok obtain b1 where b1: "b1 = drop (min (nat (int (length b) - m)) (length b)) b"
    and d': "d' = Some (put_entry (PutUint64 (Uint64 (fst (last b1)) + 1)) (Nested []) b1)"
    by (rule CycleNodes_success)
  from v have all: "\<forall>e\<in>set b. (\<exists>r. snd e = Nested r) \<and> length (fst e) = 8"
    by (simp add: VerifyBuckets_def verify_each_iff)
  let ?name = "PutUint64 (Uint64 (fst (last b1)) + 1)"
  from b1 have sub: "set b1 \<subseteq> set b" by (simp add: set_drop_subset)
  have "\<forall>e\<in>set (put_entry ?name (Nested []) b1). (\<exists>r. snd e = Nested r) \<and> length (fst e) = 8"
  proof
    fix e assume "e \<in> set (put_entry ?name (Nested []) b1)"
    with set_put_entry_full [of ?name "Nested []" b1]
    have "e = (?name, Nested []) \<or> e \<in> set b1" by auto
    then show "(\<exists>r. snd e = Nested r) \<and> length (fst e) = 8"
    proof
      assume "e = (?name, Nested [])"
      then show ?thesis by (simp add: length_PutUint64)
    next
      assume "e \<in> set b1"
      with sub all show ?thesis by blast
    qed
  qed
  with d' show ?thesis by (simp add: VerifyBuckets_def verify_each_iff)
qed

lemma Write_keeps_names:
  assumes wf: "well_formed b" and v: "VerifyBuckets (Some b) = Inr ()"
    and ok: "Write (Some b) towrite = Inr d'"
  shows "VerifyBuckets d' = Inr ()"
proof -
  from v have all: "\<forall>e\<in>set b. (\<exists>r. snd e = Nested r) \<and> length (fst e) = 8"
    by (simp add: VerifyBuckets_def verify_each_iff)
  from ok obtain r' where "d' = Some (set_ring b (fst (last b)) r')"
    by (auto simp: Write_def cursor_Last_def split: option.splits sum.splits if_splits)
  with all show ?thesis
    by (auto simp: VerifyBuckets_def verify_each_iff set_ring_def)
qed

lemma Delete_keeps_names:
  assumes wf: "well_formed b" and ne: "\<forall>k\<in>set keys. k \<noteq> []"
    and v: "VerifyBuckets (Some b) = Inr ()"
    and ok: "Delete (Some b) keys = (ret, Inr d')"
  shows "VerifyBuckets d' = Inr ()"
proof -
  from v have all: "\<forall>e\<in>set b. (\<exists>r. snd e = Nested r) \<and> length (fst e) = 8"
    by (simp add: VerifyBuckets_def verify_each_iff)
  obtain ret1 res1 where de: "delete_each b keys (replicate (length keys) False) = (ret1, res1)"
    by (cases "delete_each b keys (replicate (length keys) False)")
  with ok obtain b' where res1: "res1 = Inr b'" and d': "d' = Some b'"
    by (cases res1) (auto simp: Delete_def Let_def)
  have bd: "length keys \<le> length (replicate (length keys) False)" by simp
  from delete_each_spec [OF de [unfolded res1] wf_sorted_rings [OF wf] ne bd]
  have "b' = purge keys b" by simp
  with all d' show ?thesis
    by (auto simp: VerifyBuckets_def verify_each_iff purge_def split: child.splits)
qed

text \<open>
  As the specification states it, for every root that holds at least one ring, claim
  C10 fails: the root below holds the ring 0 and, after it, a bucket named \<open>abc\<close>. With
  \<open>min_rings = 2\<close> nothing is trimmed, the last name has 3 bytes, and \<^verbatim>\<open>nextKey\<close> panics.
\<close>
theorem trim_short_name_counterexample:
  "sorted_keys [([0,0,0,0,0,0,0,0], Nested []), ([97,98,99], Nested [])] \<and>
   Bucket [([0,0,0,0,0,0,0,0], Nested []), ([97,98,99], Nested [])] [0,0,0,0,0,0,0,0] = Some [] \<and>
   (1::int) \<le> 2 \<and>
   CycleNodes 2 (Some [([0,0,0,0,0,0,0,0], Nested []), ([97,98,99], Nested [])]) = Inl Panic"
proof (intro conjI)
  show "sorted_keys [([0,0,0,0,0,0,0,0], Nested []), ([97,98,99], Nested [])]"
    by (simp add: sorted_keys_def)
  show "(1::int) \<le> 2" by simp
qed code_simp+

end
